theory Spec2Isabelle
  imports Complex_Main "HOL-Library.Word" "HOL-Library.Log_Nat" "HOL-Library.AList"
begin

unbundle bit_operations_syntax

section \<open>Numbers of the language\<close>

text \<open>
  The worker computes with JavaScript numbers: IEEE 754 binary64 values. A finite value is
  kept as the rational it denotes; the two infinities and NaN are constructors of their own.
  The sign of zero is not represented (no operation of the worker observes it).
\<close>

datatype number = NaN | PosInf | NegInf | Fin rat

text \<open>
  \<open>exponent_of x\<close> is the binary exponent of a positive rational: the \<open>e\<close> with
  \<open>2 powi e \<le> x < 2 powi (e + 1)\<close>, found from the bit lengths of numerator and
  denominator.
\<close>

definition exponent_of :: "rat \<Rightarrow> int" where
  "exponent_of x = (case quotient_of x of (a, b) \<Rightarrow>
     let e = bitlen a - bitlen b in if x < 2 powi e then e - 1 else e)"

definition round_half_even :: "rat \<Rightarrow> int" where
  "round_half_even r = (let f = \<lfloor>r\<rfloor>; d = r - of_int f in
     if d < 1 / 2 then f else if 1 / 2 < d then f + 1 else if even f then f else f + 1)"

text \<open>
  Rounding of a positive real to binary64, to nearest with ties to even: 53 significant
  bits, the unit in the last place never below \<open>2 powi - 1074\<close> (subnormal range),
  and overflow to infinity from \<open>2 ^ 1024\<close>.
\<close>

definition round_pos :: "rat \<Rightarrow> number" where
  "round_pos x = (let u = 2 powi (max (exponent_of x) (- 1022) - 52);
                      y = of_int (round_half_even (x / u)) * u
                  in if 2 ^ 1024 \<le> y then PosInf else Fin y)"

fun num_neg :: "number \<Rightarrow> number" where
  "num_neg NaN = NaN"
| "num_neg PosInf = NegInf"
| "num_neg NegInf = PosInf"
| "num_neg (Fin r) = Fin (- r)"

definition round_double :: "rat \<Rightarrow> number" where
  "round_double x =
     (if x = 0 then Fin 0 else if 0 < x then round_pos x else num_neg (round_pos (- x)))"

text \<open>The operators \<open>/\<close>, \<open>*\<close> and \<open>-\<close> and the comparison \<open>>\<close> on numbers.\<close>

fun num_div :: "number \<Rightarrow> number \<Rightarrow> number" where
  "num_div (Fin a) (Fin b) =
     (if b = 0 then (if a = 0 then NaN else if 0 < a then PosInf else NegInf)
      else round_double (a / b))"
| "num_div (Fin a) PosInf = Fin 0"
| "num_div (Fin a) NegInf = Fin 0"
| "num_div PosInf (Fin b) = (if 0 \<le> b then PosInf else NegInf)"
| "num_div NegInf (Fin b) = (if 0 \<le> b then NegInf else PosInf)"
| "num_div _ _ = NaN"

fun num_mul :: "number \<Rightarrow> number \<Rightarrow> number" where
  "num_mul NaN _ = NaN"
| "num_mul _ NaN = NaN"
| "num_mul (Fin a) (Fin b) = round_double (a * b)"
| "num_mul (Fin a) y = (if a = 0 then NaN else if 0 < a then y else num_neg y)"
| "num_mul x (Fin b) = (if b = 0 then NaN else if 0 < b then x else num_neg x)"
| "num_mul PosInf y = y"
| "num_mul NegInf y = num_neg y"

fun num_sub :: "number \<Rightarrow> number \<Rightarrow> number" where
  "num_sub NaN _ = NaN"
| "num_sub _ NaN = NaN"
| "num_sub PosInf PosInf = NaN"
| "num_sub NegInf NegInf = NaN"
| "num_sub PosInf _ = PosInf"
| "num_sub NegInf _ = NegInf"
| "num_sub (Fin a) PosInf = NegInf"
| "num_sub (Fin a) NegInf = PosInf"
| "num_sub (Fin a) (Fin b) = round_double (a - b)"

fun num_gt :: "number \<Rightarrow> number \<Rightarrow> bool" where
  "num_gt NaN _ = False"
| "num_gt _ NaN = False"
| "num_gt PosInf y = (y \<noteq> PosInf)"
| "num_gt NegInf _ = False"
| "num_gt (Fin a) PosInf = False"
| "num_gt (Fin a) NegInf = True"
| "num_gt (Fin a) (Fin b) = (b < a)"

section \<open>Strings and numerals\<close>

text \<open>
  Strings are lists of characters with codes below 256. \<open>nat_to_string radix n\<close> is the
  numeral of a non-negative integer, as template interpolation (radix 10) and
  \<open>toString(16)\<close> produce it.
\<close>

definition digit_char :: "nat \<Rightarrow> char" where
  "digit_char d = ''0123456789abcdefghijklmnopqrstuvwxyz'' ! d"

function nat_to_string :: "nat \<Rightarrow> nat \<Rightarrow> string" where
  "nat_to_string radix n =
     (if n < radix \<or> radix < 2 then [digit_char n]
      else nat_to_string radix (n div radix) @ [digit_char (n mod radix)])"
  by pat_completeness auto
termination
  by (relation "measure snd") auto

declare nat_to_string.simps [simp del]

definition padStart :: "nat \<Rightarrow> char \<Rightarrow> string \<Rightarrow> string" where
  "padStart n c s = replicate (n - length s) c @ s"

definition is_digit :: "char \<Rightarrow> bool" where
  "is_digit c = (48 \<le> (of_char c :: nat) \<and> (of_char c :: nat) \<le> 57)"

definition digit_val :: "char \<Rightarrow> nat" where
  "digit_val c = of_char c - 48"

definition digits_val :: "string \<Rightarrow> nat" where
  "digits_val ds = foldl (\<lambda>acc c. 10 * acc + digit_val c) 0 ds"

text \<open>The white space that \<open>parseInt\<close> and \<open>parseFloat\<close> skip, among the codes below 256.\<close>

definition is_space :: "char \<Rightarrow> bool" where
  "is_space c = ((of_char c :: nat) \<in> {9, 10, 11, 12, 13, 32, 160})"

text \<open>
  \<open>Number.prototype.toFixed\<close>: the integer \<open>n\<close> nearest to \<open>x * 10 ^ f\<close> (the larger
  of two equally near), printed with \<open>f\<close> fraction digits. From \<open>10 ^ 21\<close> on the
  platform prints in exponent notation, which is not modelled: the result is \<open>None\<close>
  there.
\<close>

definition toFixed :: "nat \<Rightarrow> number \<Rightarrow> string option" where
  "toFixed f x = (case x of
       NaN \<Rightarrow> Some ''NaN''
     | PosInf \<Rightarrow> Some ''Infinity''
     | NegInf \<Rightarrow> Some ''-Infinity''
     | Fin r \<Rightarrow>
         let s = (if r < 0 then ''-'' else ''''); a = \<bar>r\<bar> in
         if 10 ^ 21 \<le> a then None
         else
           let n = nat \<lfloor>a * 10 ^ f + 1 / 2\<rfloor>;
               m = nat_to_string 10 n;
               m = (if f \<noteq> 0 \<and> length m \<le> f then replicate (f + 1 - length m) (CHR ''0'') @ m else m);
               k = length m
           in Some (s @ (if f \<noteq> 0 then take (k - f) m @ ''.'' @ drop (k - f) m else m)))"

text \<open>
  \<open>parseFloat\<close>: leading white space is skipped, then the longest prefix that is a decimal
  literal (sign, digits, fraction, exponent, or \<open>Infinity\<close>) is read and rounded to a
  number; \<open>NaN\<close> when there is no such prefix.
\<close>

definition split_sign :: "string \<Rightarrow> bool \<times> string" where
  "split_sign s = (case s of
       [] \<Rightarrow> (False, [])
     | c # r \<Rightarrow> if c = CHR ''-'' then (True, r) else if c = CHR ''+'' then (False, r) else (False, s))"

definition exponent_part :: "string \<Rightarrow> int" where
  "exponent_part s = (case s of
       [] \<Rightarrow> 0
     | c # r \<Rightarrow>
         if c = CHR ''e'' \<or> c = CHR ''E'' then
           (case split_sign r of (neg, r') \<Rightarrow>
              let ds = takeWhile is_digit r' in
              if ds = [] then 0 else if neg then - int (digits_val ds) else int (digits_val ds))
         else 0)"

definition parseFloat :: "string \<Rightarrow> number" where
  "parseFloat s = (case split_sign (dropWhile is_space s) of (neg, t) \<Rightarrow>
     if take 8 t = ''Infinity'' then (if neg then NegInf else PosInf)
     else
       let ip = takeWhile is_digit t; r1 = dropWhile is_digit t;
           fp = (case r1 of [] \<Rightarrow> [] | c # r \<Rightarrow> if c = CHR ''.'' then takeWhile is_digit r else []);
           r2 = (case r1 of [] \<Rightarrow> [] | c # r \<Rightarrow> if c = CHR ''.'' then dropWhile is_digit r else r1)
       in if ip = [] \<and> fp = [] then NaN
          else
            let v = (of_nat (digits_val ip) + of_nat (digits_val fp) / 10 ^ length fp)
                      * 10 powi exponent_part r2
            in round_double (if neg then - v else v))"

text \<open>\<open>parseInt\<close> with radix 10: white space, a sign, then the longest run of digits.\<close>

definition parseInt10 :: "string \<Rightarrow> number" where
  "parseInt10 s = (case split_sign (dropWhile is_space s) of (neg, t) \<Rightarrow>
     let ds = takeWhile is_digit t in
     if ds = [] then NaN
     else round_double (if neg then - of_nat (digits_val ds) else of_nat (digits_val ds)))"

section \<open>Maps with insertion order\<close>

text \<open>
  A \<open>Map\<close> iterates its entries in the order in which the keys were first set; it is an
  association list with distinct keys. \<open>set\<close> on a key that is present replaces the value
  in place, otherwise the entry is appended.
\<close>

type_synonym ('k, 'v) js_map = "('k \<times> 'v) list"

definition map_set :: "('k, 'v) js_map \<Rightarrow> 'k \<Rightarrow> 'v \<Rightarrow> ('k, 'v) js_map" where
  "map_set m k v = AList.update k v m"

definition map_get :: "('k, 'v) js_map \<Rightarrow> 'k \<Rightarrow> 'v option" where
  "map_get m k = map_of m k"

section \<open>Arrays: sort and slice\<close>

text \<open>
  \<open>Array.prototype.sort\<close> with a comparator is stable: an element moves behind another one
  only where the comparator returns a number greater than zero (a \<open>NaN\<close> result counts as
  zero). The model inserts the elements from the right into the sorted rest.
\<close>

fun insert_sorted :: "('a \<Rightarrow> 'a \<Rightarrow> number) \<Rightarrow> 'a \<Rightarrow> 'a list \<Rightarrow> 'a list" where
  "insert_sorted cmp x [] = [x]"
| "insert_sorted cmp x (y # ys) =
     (if num_gt (cmp x y) (Fin 0) then y # insert_sorted cmp x ys else x # y # ys)"

definition array_sort :: "('a \<Rightarrow> 'a \<Rightarrow> number) \<Rightarrow> 'a list \<Rightarrow> 'a list" where
  "array_sort cmp xs = foldr (insert_sorted cmp) xs []"

text \<open>
  \<open>xs.slice(0, end)\<close>: the end is truncated to an integer (\<open>NaN\<close> is 0), a negative end
  counts from the back, and the result stops at the end of the array.
\<close>

definition slice0 :: "'a list \<Rightarrow> number \<Rightarrow> 'a list" where
  "slice0 xs end = (case end of
       NaN \<Rightarrow> []
     | PosInf \<Rightarrow> xs
     | NegInf \<Rightarrow> []
     | Fin r \<Rightarrow>
         let i = (if r < 0 then - \<lfloor>- r\<rfloor> else \<lfloor>r\<rfloor>) in
         if i < 0 then take (nat (int (length xs) + i)) xs else take (nat i) xs)"

section \<open>The color of a language\<close>

text \<open>
  \<open>TextEncoder.encode\<close>: UTF-8, for characters with codes below 256.
\<close>

definition utf8_encode :: "string \<Rightarrow> 8 word list" where
  "utf8_encode s = concat (map (\<lambda>c.
     let n = (of_char c :: nat) in
     if n < 128 then [of_nat n] else [of_nat (192 + n div 64), of_nat (128 + n mod 64)]) s)"

text \<open>
  \<open>crypto.subtle.digest('SHA-1', data)\<close> is the platform's SHA-1 (FIPS 180-4): the message
  is padded to a multiple of 64 bytes, and each block of sixteen big-endian 32-bit words
  is expanded to eighty words and compressed into five chaining words.
\<close>

definition be_bytes :: "nat \<Rightarrow> nat \<Rightarrow> 8 word list" where
  "be_bytes k n = map (\<lambda>i. of_nat (n div 256 ^ i)) (rev [0..<k])"

definition sha1_pad :: "8 word list \<Rightarrow> 8 word list" where
  "sha1_pad m =
     m @ [0x80] @ replicate ((119 - length m mod 64) mod 64) 0 @ be_bytes 8 (8 * length m)"

function chunks :: "nat \<Rightarrow> 'a list \<Rightarrow> 'a list list" where
  "chunks n xs = (if n = 0 \<or> length xs < n then [] else take n xs # chunks n (drop n xs))"
  by pat_completeness auto
termination
  by (relation "measure (\<lambda>(n, xs). length xs)") auto

declare chunks.simps [simp del]

definition be_word :: "8 word list \<Rightarrow> 32 word" where
  "be_word bs = foldl (\<lambda>acc b. push_bit 8 acc OR ucast b) 0 bs"

fun sha1_expand :: "nat \<Rightarrow> 32 word list \<Rightarrow> 32 word list" where
  "sha1_expand 0 w = w"
| "sha1_expand (Suc n) w =
     (let i = length w in
      sha1_expand n
        (w @ [word_rotl 1 (w ! (i - 3) XOR w ! (i - 8) XOR w ! (i - 14) XOR w ! (i - 16))]))"

type_synonym sha1_state = "32 word \<times> 32 word \<times> 32 word \<times> 32 word \<times> 32 word"

definition sha1_round :: "32 word list \<Rightarrow> sha1_state \<Rightarrow> nat \<Rightarrow> sha1_state" where
  "sha1_round w st i = (case st of (a, b, c, d, e) \<Rightarrow>
     let f = (if i < 20 then (b AND c) OR (NOT b AND d)
              else if i < 40 then b XOR c XOR d
              else if i < 60 then (b AND c) OR (b AND d) OR (c AND d)
              else b XOR c XOR d);
         k = (if i < 20 then 0x5A827999
              else if i < 40 then 0x6ED9EBA1
              else if i < 60 then 0x8F1BBCDC
              else 0xCA62C1D6);
         temp = word_rotl 5 a + f + e + k + w ! i
     in (temp, a, word_rotl 30 b, c, d))"

definition sha1_block :: "sha1_state \<Rightarrow> 8 word list \<Rightarrow> sha1_state" where
  "sha1_block h block = (case h of (h0, h1, h2, h3, h4) \<Rightarrow>
     let w = sha1_expand 64 (map be_word (chunks 4 block)) in
     case foldl (sha1_round w) h [0..<80] of (a, b, c, d, e) \<Rightarrow>
       (h0 + a, h1 + b, h2 + c, h3 + d, h4 + e))"

definition word_bytes :: "32 word \<Rightarrow> 8 word list" where
  "word_bytes x = [ucast (drop_bit 24 x), ucast (drop_bit 16 x), ucast (drop_bit 8 x), ucast x]"

definition sha1_digest :: "8 word list \<Rightarrow> 8 word list" where
  "sha1_digest m =
     (case foldl sha1_block (0x67452301, 0xEFCDAB89, 0x98BADCFE, 0x10325476, 0xC3D2E1F0)
             (chunks 64 (sha1_pad m)) of
        (h0, h1, h2, h3, h4) \<Rightarrow>
          word_bytes h0 @ word_bytes h1 @ word_bytes h2 @ word_bytes h3 @ word_bytes h4)"

definition sha1Hash :: "string \<Rightarrow> string" where
  "sha1Hash msg =
     (let data = utf8_encode msg;
          hashBuffer = sha1_digest data;
          hashArray = hashBuffer;
          hashHex = concat (map (\<lambda>b. padStart 2 (CHR ''0'') (nat_to_string 16 (unat b))) hashArray)
      in hashHex)"

definition stringToHexColor :: "string \<Rightarrow> string" where
  "stringToHexColor str = (let fullHash = sha1Hash str in ''#'' @ take 6 fullHash)"

section \<open>Rendering\<close>

definition compare_perc :: "string \<times> string \<Rightarrow> string \<times> string \<Rightarrow> number" where
  "compare_perc x y = (case x of (_, a) \<Rightarrow> case y of (_, b) \<Rightarrow>
     num_sub (parseFloat b) (parseFloat a))"

definition topLangs :: "(string, string) js_map \<Rightarrow> number \<Rightarrow> (string \<times> string) list" where
  "topLangs percMap count = slice0 (array_sort compare_perc percMap) count"

text \<open>The text of one row, with its four interpolations.\<close>

definition row_template :: "nat \<Rightarrow> string \<Rightarrow> string \<Rightarrow> string \<Rightarrow> string" where
  \<open>row_template index lang perc color =
       ''\<newline>''
       @ ''      <g transform="translate(0, ''
       @ nat_to_string 10 (index * 40)
       @ '')">\<newline>''
       @ ''        <g>\<newline>''
       @ ''          <text data-testid="lang-name" x="2" y="15" class="lang-name">''
       @ lang
       @ ''</text>\<newline>''
       @ ''          <text x="215" y="34" class="lang-name">''
       @ perc
       @ ''%</text>\<newline>''
       @ ''          <svg width="205" x="0" y="25">\<newline>''
       @ ''            <rect rx="5" ry="5" x="0" y="0" width="205" height="8" fill="#ddd"></rect>\<newline>''
       @ ''            <svg width="''
       @ perc
       @ ''%">\<newline>''
       @ ''              <rect\<newline>''
       @ ''                  height="8"\<newline>''
       @ ''                  fill="''
       @ color
       @ ''"\<newline>''
       @ ''                  rx="5" ry="5" x="0" y="0"\<newline>''
       @ ''                  width="100%"\<newline>''
       @ ''                  class="lang-progress"\<newline>''
       @ ''              />\<newline>''
       @ ''            </svg>\<newline>''
       @ ''          </svg>\<newline>''
       @ ''        </g>\<newline>''
       @ ''      </g>\<newline>''
       @ ''    ''\<close>

definition langItem :: "string \<times> string \<Rightarrow> nat \<Rightarrow> string" where
  "langItem entry index = (case entry of (lang, perc) \<Rightarrow>
     let color = stringToHexColor lang in row_template index lang perc color)"

definition document :: "nat \<Rightarrow> string \<Rightarrow> string" where
  \<open>document height langItems =
     ''\<newline>''
     @ ''<svg\<newline>''
     @ ''  width="300"\<newline>''
     @ ''  height="''
     @ nat_to_string 10 height
     @ ''"\<newline>''
     @ ''  viewBox="0 0 300 ''
     @ nat_to_string 10 height
     @ ''"\<newline>''
     @ ''  fill="none"\<newline>''
     @ ''  xmlns="http://www.w3.org/2000/svg"\<newline>''
     @ ''  role="img"\<newline>''
     @ ''  aria-labelledby="descId"\<newline>''
     @ ''>\<newline>''
     @ ''  <title id="titleId">Top Languages</title>\<newline>''
     @ ''  <desc id="descId">Top languages by main repo language</desc>\<newline>''
     @ ''  <style>\<newline>''
     @ ''    .header {\<newline>''
     @ ''      font: 600 20px Verdana, Sans-Serif;\<newline>''
     @ ''      fill:rgb(3, 38, 83);\<newline>''
     @ ''    }\<newline>''
     @ ''    @supports(-moz-appearance: auto) {\<newline>''
     @ ''      /* Selector detects Firefox */\<newline>''
     @ ''      .header { font-size: 15.5px; }\<newline>''
     @ ''    }\<newline>''
     @ ''    .stat {\<newline>''
     @ ''      font: 600 14px Verdana, Sans-Serif; fill: #434d58;\<newline>''
     @ ''    }\<newline>''
     @ ''    @supports(-moz-appearance: auto) {\<newline>''
     @ ''      /* Selector detects Firefox */\<newline>''
     @ ''      .stat { font-size:12px; }\<newline>''
     @ ''    }\<newline>''
     @ ''    .bold { font-weight: 700 }\<newline>''
     @ ''    .lang-name {\<newline>''
     @ ''      font: 400 11px Verdana, Sans-Serif;\<newline>''
     @ ''      fill: #434d58;\<newline>''
     @ ''    }\<newline>''
     @ ''  </style>\<newline>''
     @ ''\<newline>''
     @ ''  <rect\<newline>''
     @ ''    data-testid="card-bg"\<newline>''
     @ ''    x="0.5"\<newline>''
     @ ''    y="0.5"\<newline>''
     @ ''    rx="4.5"\<newline>''
     @ ''    height="99%"\<newline>''
     @ ''    stroke="#e4e2e2"\<newline>''
     @ ''    width="299"\<newline>''
     @ ''    fill="#fffefe"\<newline>''
     @ ''    stroke-opacity="1"\<newline>''
     @ ''  />\<newline>''
     @ ''\<newline>''
     @ ''  <g data-testid="card-title" transform="translate(25, 35)">\<newline>''
     @ ''    <g transform="translate(0, 0)">\<newline>''
     @ ''      <text x="0" y="0" class="header" data-testid="header">Top Languages</text>\<newline>''
     @ ''    </g>\<newline>''
     @ ''  </g>\<newline>''
     @ ''\<newline>''
     @ ''  <g data-testid="main-card-body" transform="translate(0, 55)">\<newline>''
     @ ''    <svg data-testid="lang-items" x="25">\<newline>''
     @ ''      ''
     @ langItems
     @ ''\<newline>''
     @ ''    </svg>\<newline>''
     @ ''  </g>\<newline>''
     @ ''</svg>\<newline>''
     @ ''    ''\<close>

definition generateSvg :: "(string, string) js_map \<Rightarrow> number \<Rightarrow> string" where
  "generateSvg percMap count =
     (let tl = topLangs percMap count;
          listHeight = length tl * 40;
          height = 55 + listHeight + 30;
          langItems = concat (map (\<lambda>(entry, index). langItem entry index) (zip tl [0..<length tl]))
      in document height langItems)"

section \<open>The request handler\<close>

record GitHubRepo =
  repo_id :: int
  repo_name :: string
  full_name :: string
  stargazers_count :: int
  language :: "string option"

record Env =
  GH_KEY :: string

text \<open>
  The repository-listing API is outside the worker: it is a function from the URL and the
  request headers to the response, of which the worker reads the status, the status text
  and the decoded body.
\<close>

record api_response =
  api_status :: nat
  api_statusText :: string
  api_json :: "GitHubRepo list"

type_synonym api = "string \<Rightarrow> (string \<times> string) list \<Rightarrow> api_response"

definition api_ok :: "api_response \<Rightarrow> bool" where
  "api_ok r = (200 \<le> api_status r \<and> api_status r \<le> 299)"

datatype thrown = Error string | NonError

definition repos_url :: "string option \<Rightarrow> string" where
  "repos_url username =
     (let perPage = 100 in
      ''https://api.github.com/users/''
      @ (case username of None \<Rightarrow> ''undefined'' | Some u \<Rightarrow> u)
      @ ''/repos?page=1&per_page='' @ nat_to_string 10 perPage @ ''&sort=updated'')"

definition request_headers :: "Env \<Rightarrow> (string \<times> string) list" where
  "request_headers env =
     [(''User-Agent'', ''gh-lang-stats-ts''),
      (''Accept'', ''application/vnd.github.v3+json''),
      (''Authorization'', ''Bearer '' @ GH_KEY env)]"

definition fetchGitHubRepos :: "api \<Rightarrow> string option \<Rightarrow> Env \<Rightarrow> thrown + GitHubRepo list" where
  "fetchGitHubRepos api username env =
     (let url = repos_url username;
          response = api url (request_headers env)
      in if \<not> api_ok response
         then Inl (Error (''GitHub API error: '' @ nat_to_string 10 (api_status response)
                          @ '' '' @ api_statusText response))
         else Inr (api_json response))"

text \<open>The tally of primary languages (\<open>langs\<close>), its sum (\<open>total\<close>) and the shares (\<open>percMap\<close>).\<close>

definition tally_step :: "(string, nat) js_map \<Rightarrow> GitHubRepo \<Rightarrow> (string, nat) js_map" where
  "tally_step acc r =
     (let key = (case language r of None \<Rightarrow> '''' | Some l \<Rightarrow> l) in
      map_set acc key ((case map_get acc key of None \<Rightarrow> 0 | Some c \<Rightarrow> c) + 1))"

definition langs_of :: "GitHubRepo list \<Rightarrow> (string, nat) js_map" where
  "langs_of repos = foldl tally_step [] repos"

definition total_of :: "(string, nat) js_map \<Rightarrow> nat" where
  "total_of langs = foldl (\<lambda>acc count. acc + count) 0 (map snd langs)"

definition perc_of :: "nat \<Rightarrow> nat \<Rightarrow> string option" where
  "perc_of val total_count =
     toFixed 2 (num_mul (num_div (Fin (of_nat val)) (Fin (of_nat total_count))) (Fin 100))"

fun percMap_forEach ::
  "nat \<Rightarrow> (string, nat) js_map \<Rightarrow> (string, string) js_map \<Rightarrow> (string, string) js_map option" where
  "percMap_forEach total_count [] percMap = Some percMap"
| "percMap_forEach total_count ((key, val) # rest) percMap =
     (case perc_of val total_count of
        None \<Rightarrow> None
      | Some perc \<Rightarrow> percMap_forEach total_count rest (map_set percMap key perc))"

definition percMap_of :: "(string, nat) js_map \<Rightarrow> (string, string) js_map option" where
  "percMap_of langs = percMap_forEach (total_of langs) langs []"

definition count_of :: "string option \<Rightarrow> number" where
  "count_of top_value = (case top_value of
       None \<Rightarrow> Fin 5
     | Some t \<Rightarrow> if t \<noteq> '''' \<and> num_gt (parseInt10 t) (Fin 0) then parseInt10 t else Fin 5)"

text \<open>\<open>JSON.stringify\<close> of an object whose values are strings.\<close>

definition json_char :: "char \<Rightarrow> string" where
  "json_char c = (let n = (of_char c :: nat) in
     if n = 8 then CHR 0x5C # ''b'' else if n = 9 then CHR 0x5C # ''t''
     else if n = 10 then CHR 0x5C # ''n'' else if n = 12 then CHR 0x5C # ''f''
     else if n = 13 then CHR 0x5C # ''r''
     else if n = 34 then [CHR 0x5C, CHR 0x22] else if n = 92 then [CHR 0x5C, CHR 0x5C]
     else if n < 32 then CHR 0x5C # ''u'' @ padStart 4 (CHR ''0'') (nat_to_string 16 n)
     else [c])"

definition json_quote :: "string \<Rightarrow> string" where
  "json_quote s = [CHR 0x22] @ concat (map json_char s) @ [CHR 0x22]"

fun join :: "string \<Rightarrow> string list \<Rightarrow> string" where
  "join sep [] = ''''"
| "join sep [x] = x"
| "join sep (x # y # ys) = x @ sep @ join sep (y # ys)"

definition JSON_stringify :: "(string \<times> string) list \<Rightarrow> string" where
  "JSON_stringify obj =
     ''{'' @ join '','' (map (\<lambda>(k, v). json_quote k @ '':'' @ json_quote v) obj) @ ''}''"

record request =
  http_method :: string
  pathname :: string
  top_param :: "string option"

record response =
  status :: nat
  headers :: "(string \<times> string) list"
  body :: "string option"

definition corsHeaders :: "(string \<times> string) list" where
  "corsHeaders =
     [(''Access-Control-Allow-Origin'', ''*''),
      (''Access-Control-Allow-Methods'', ''GET, OPTIONS''),
      (''Access-Control-Allow-Headers'', ''Content-Type'')]"

text \<open>JavaScript's \<open>split\<close> on a one-character separator.\<close>

fun split_on :: "char \<Rightarrow> string \<Rightarrow> string list" where
  "split_on sep [] = [[]]"
| "split_on sep (c # cs) =
     (if c = sep then [] # split_on sep cs
      else (case split_on sep cs of [] \<Rightarrow> [[c]] | w # ws \<Rightarrow> (c # w) # ws))"

text \<open>The first non-empty segment of the path; \<open>None\<close> stands for \<open>undefined\<close>.\<close>

definition username_of :: "string \<Rightarrow> string option" where
  "username_of path =
     (let pathParts = filter (\<lambda>p. p \<noteq> '''') (split_on (CHR ''/'') path)
      in case pathParts of [] \<Rightarrow> None | p # _ \<Rightarrow> Some p)"

definition catch_response :: "thrown \<Rightarrow> response" where
  "catch_response error =
     \<lparr>status = 500,
      headers = (''Content-Type'', ''application/json'') # corsHeaders,
      body = Some (JSON_stringify
        [(''error'', ''Failed to fetch repository data''),
         (''message'', (case error of Error message \<Rightarrow> message | NonError \<Rightarrow> ''Unknown error''))])\<rparr>"

text \<open>
  The handler. The result is \<open>None\<close> only where a share would be printed in exponent
  notation, which the model of \<open>toFixed\<close> leaves out.
\<close>

definition fetch :: "api \<Rightarrow> request \<Rightarrow> Env \<Rightarrow> response option" where
  "fetch api req env =
     (if http_method req = ''OPTIONS'' then Some \<lparr>status = 200, headers = corsHeaders, body = None\<rparr>
      else if http_method req \<noteq> ''GET''
        then Some \<lparr>status = 405, headers = corsHeaders, body = Some ''Method not allowed''\<rparr>
      else
        let username = username_of (pathname req)
        in case fetchGitHubRepos api username env of
             Inl error \<Rightarrow> Some (catch_response error)
           | Inr fetched \<Rightarrow>
               let repos = filter (\<lambda>r. language r \<noteq> None) fetched;
                   langs = langs_of repos
               in (case percMap_of langs of
                     None \<Rightarrow> None
                   | Some percMap \<Rightarrow>
                       let count = count_of (top_param req);
                           svg = generateSvg percMap count
                       in Some \<lparr>status = 200,
                                headers = (''Content-Type'', ''image/svg+xml'') # corsHeaders,
                                body = Some svg\<rparr>))"

section \<open>The reference data of the test suite\<close>

definition mockRepo :: "int \<Rightarrow> string option \<Rightarrow> GitHubRepo" where
  "mockRepo i l =
     \<lparr>repo_id = i, repo_name = ''repo'' @ nat_to_string 10 (nat i),
      full_name = ''user/repo'' @ nat_to_string 10 (nat i), stargazers_count = 1, language = l\<rparr>"

definition mockRepos :: "GitHubRepo list" where
  "mockRepos =
     [mockRepo 1 (Some ''TypeScript''), mockRepo 2 (Some ''TypeScript''),
      mockRepo 3 (Some ''JavaScript''), mockRepo 4 (Some ''Python''),
      mockRepo 5 (Some ''Python''), mockRepo 6 (Some ''Python''), mockRepo 7 None]"

text \<open>\<open>contains s t\<close>: the text \<open>t\<close> occurs in \<open>s\<close> (the test suite's \<open>toContain\<close>).\<close>

fun contains :: "string \<Rightarrow> string \<Rightarrow> bool" where
  "contains [] t = (t = [])"
| "contains (c # s) t = (take (length t) (c # s) = t \<or> contains s t)"

section \<open>Notions used in the statements\<close>

text \<open>The number that a share denotes when it is parsed back (0 where it is not finite).\<close>

fun is_finite :: "number \<Rightarrow> bool" where
  "is_finite (Fin v) = True"
| "is_finite _ = False"

definition perc_value :: "string \<Rightarrow> rat" where
  "perc_value s = (case parseFloat s of Fin v \<Rightarrow> v | _ \<Rightarrow> 0)"

text \<open>
  The repository records that survive the filter of the handler, and the distinct elements
  of a list in the order of their first occurrence.
\<close>

definition with_language :: "GitHubRepo list \<Rightarrow> GitHubRepo list" where
  "with_language fetched = filter (\<lambda>r. language r \<noteq> None) fetched"

fun first_seen :: "'a list \<Rightarrow> 'a list" where
  "first_seen [] = []"
| "first_seen (x # xs) = x # first_seen (filter (\<lambda>y. y \<noteq> x) xs)"

text \<open>The characters of a lower-case hexadecimal numeral.\<close>

definition is_hex_lower :: "char \<Rightarrow> bool" where
  "is_hex_lower c = (c \<in> set ''0123456789abcdef'')"

text \<open>
  The pieces of a row that show an entry: its name, its share, the width of its bar and
  the fill of the bar.
\<close>

definition name_cell :: "string \<Rightarrow> string" where
  \<open>name_cell lang =
     ''<text data-testid="lang-name" x="2" y="15" class="lang-name">'' @ lang @ ''</text>''\<close>

definition share_cell :: "string \<Rightarrow> string" where
  \<open>share_cell perc = ''<text x="215" y="34" class="lang-name">'' @ perc @ ''%</text>''\<close>

definition bar_width :: "string \<Rightarrow> string" where
  \<open>bar_width perc = ''<svg width="'' @ perc @ ''%">''\<close>

definition bar_fill :: "string \<Rightarrow> string" where
  \<open>bar_fill color = ''fill="'' @ color @ ''"''\<close>



text \<open>The opening of the name cell, which every row carries.\<close>

definition row_marker :: string where
  \<open>row_marker = ''<text data-testid="lang-name"''\<close>

section \<open>Rounding to binary64\<close>

lemma exponent_of_bounds:
  assumes "0 < x"
  shows "2 powi (exponent_of x) \<le> x \<and> x < 2 powi (exponent_of x + 1)"
proof -
  obtain a b where q: "quotient_of x = (a, b)" by (cases "quotient_of x")
  have b: "0 < b" using q by (rule quotient_of_denom_pos)
  have x: "x = of_int a / of_int b" using q by (rule quotient_of_div)
  have a: "0 < a" using assms b x by (simp add: zero_less_divide_iff)
  define la lb where "la = bitlen a" and "lb = bitlen b"
  have la: "1 \<le> la" and lb: "1 \<le> lb"
    using a b bitlen_eq_zero_iff [of a] bitlen_eq_zero_iff [of b] bitlen_nonneg [of a] bitlen_nonneg [of b]
    by (auto simp: la_def lb_def)
  have ba: "(2::int) ^ nat (la - 1) \<le> a" "a < 2 ^ nat la"
    using bitlen_bounds [OF a] by (simp_all add: la_def)
  have bb: "(2::int) ^ nat (lb - 1) \<le> b" "b < 2 ^ nat lb"
    using bitlen_bounds [OF b] by (simp_all add: lb_def)
  have ra: "(2::rat) powi (la - 1) \<le> of_int a" "of_int a < (2::rat) powi la"
  proof -
    have "(of_int ((2::int) ^ nat (la - 1)) :: rat) \<le> of_int a" using ba(1) by (simp only: of_int_le_iff)
    then show "(2::rat) powi (la - 1) \<le> of_int a" using la by (simp add: power_int_def)
    have "(of_int a :: rat) < of_int ((2::int) ^ nat la)" using ba(2) by (simp only: of_int_less_iff)
    then show "of_int a < (2::rat) powi la" using la by (simp add: power_int_def)
  qed
  have rb: "(2::rat) powi (lb - 1) \<le> of_int b" "of_int b < (2::rat) powi lb"
  proof -
    have "(of_int ((2::int) ^ nat (lb - 1)) :: rat) \<le> of_int b" using bb(1) by (simp only: of_int_le_iff)
    then show "(2::rat) powi (lb - 1) \<le> of_int b" using lb by (simp add: power_int_def)
    have "(of_int b :: rat) < of_int ((2::int) ^ nat lb)" using bb(2) by (simp only: of_int_less_iff)
    then show "of_int b < (2::rat) powi lb" using lb by (simp add: power_int_def)
  qed
  have bpos: "(0::rat) < of_int b" using b by simp
  have lower: "(2::rat) powi (la - lb - 1) \<le> x"
  proof -
    have "(2::rat) powi (la - lb - 1) = 2 powi (la - 1) / 2 powi lb"
      by (simp add: power_int_diff [symmetric] algebra_simps)
    also have "\<dots> \<le> of_int a / 2 powi lb"
      using ra(1) by (simp add: divide_right_mono)
    also have "\<dots> \<le> of_int a / of_int b"
      using rb(2) bpos a by (intro divide_left_mono) (auto simp: less_imp_le)
    finally show ?thesis by (simp add: x)
  qed
  have upper: "x < (2::rat) powi (la - lb + 1)"
  proof -
    have "x < 2 powi la / of_int b"
      unfolding x using ra(2) bpos by (simp add: divide_strict_right_mono)
    also have "\<dots> \<le> 2 powi la / 2 powi (lb - 1)"
      using rb(1) bpos by (intro divide_left_mono) (auto simp: less_imp_le zero_less_mult_iff)
    also have "\<dots> = 2 powi (la - lb + 1)"
      by (simp add: power_int_diff [symmetric] algebra_simps)
    finally show ?thesis .
  qed
  have e: "exponent_of x = (if x < 2 powi (la - lb) then la - lb - 1 else la - lb)"
    by (simp add: exponent_of_def q la_def lb_def Let_def)
  show ?thesis
  proof (cases "x < 2 powi (la - lb)")
    case True
    then show ?thesis using lower e by simp
  next
    case False
    then show ?thesis using upper e by simp
  qed
qed

lemma exponent_of_eqI:
  assumes "0 < x" and "2 powi e \<le> x" and "x < 2 powi (e + 1)"
  shows "exponent_of x = e"
proof (rule ccontr)
  assume ne: "exponent_of x \<noteq> e"
  let ?e = "exponent_of x"
  have b: "2 powi ?e \<le> x" "x < 2 powi (?e + 1)" using exponent_of_bounds [OF assms(1)] by simp_all
  show False
  proof (cases "?e < e")
    case True
    then have "(2::rat) powi (?e + 1) \<le> 2 powi e" by (intro power_int_increasing) auto
    then show False using b(2) assms(2) by simp
  next
    case False
    then have "e + 1 \<le> ?e" using ne by simp
    then have "(2::rat) powi (e + 1) \<le> 2 powi ?e" by (intro power_int_increasing) auto
    then show False using b(1) assms(3) by simp
  qed
qed

lemma round_half_even_err: "\<bar>of_int (round_half_even r) - r\<bar> \<le> 1 / 2"
proof -
  have "of_int \<lfloor>r\<rfloor> \<le> r" "r < of_int \<lfloor>r\<rfloor> + 1" by linarith+
  then show ?thesis by (auto simp: round_half_even_def Let_def)
qed

lemma round_half_even_eqI:
  assumes "\<bar>r - of_int n\<bar> < 1 / 2"
  shows "round_half_even r = n"
proof -
  have "\<bar>(of_int (round_half_even r) :: rat) - of_int n\<bar> < 1"
    using round_half_even_err [of r] assms by linarith
  then have "\<bar>round_half_even r - n\<bar> < 1"
    by (metis of_int_diff of_int_abs of_int_less_iff of_int_1)
  then show ?thesis by simp
qed

lemma round_half_even_of_int [simp]: "round_half_even (of_int n) = n"
  by (rule round_half_even_eqI) simp

lemma round_pos_normal:
  assumes x: "0 < x" and lo: "2 powi e \<le> x" and hi: "x < 2 powi (e + 1)"
    and e1: "- 1022 \<le> e" and e2: "e \<le> 1022"
  shows "round_pos x = Fin (of_int (round_half_even (x / 2 powi (e - 52))) * 2 powi (e - 52))"
proof -
  let ?u = "(2::rat) powi (e - 52)"
  let ?R = "round_half_even (x / ?u)"
  have ee: "exponent_of x = e" using x lo hi by (rule exponent_of_eqI)
  have u: "0 < ?u" by simp
  have "x / ?u < 2 powi (e + 1) / ?u" using hi u by (simp add: divide_strict_right_mono)
  also have "\<dots> = 2 powi 53" by (simp add: power_int_diff [symmetric])
  finally have xu: "x / ?u < 2 ^ 53" by simp
  have "of_int ?R \<le> x / ?u + 1 / 2" using round_half_even_err [of "x / ?u"] by linarith
  then have "(of_int ?R :: rat) < 2 ^ 53 + 1" using xu by linarith
  then have "(of_int ?R :: rat) < of_int (2 ^ 53 + 1)" by simp
  then have "?R < 2 ^ 53 + 1" by (simp only: of_int_less_iff)
  then have "?R \<le> 2 ^ 53" by simp
  then have "(of_int ?R :: rat) \<le> of_int (2 ^ 53)" by (simp only: of_int_le_iff)
  then have "(of_int ?R :: rat) \<le> 2 powi 53" by simp
  then have "of_int ?R * ?u \<le> 2 powi 53 * ?u" using u by (simp add: mult_right_mono)
  also have "\<dots> = 2 powi (53 + (e - 52))" by (rule power_int_add [symmetric]) simp
  also have "\<dots> = 2 powi (e + 1)" by (simp only: add_diff_eq) (simp add: algebra_simps)
  also have "\<dots> \<le> 2 powi 1023" using e2 by (intro power_int_increasing) auto
  also have "\<dots> < (2::rat) ^ 1024" by simp
  finally have "\<not> 2 ^ 1024 \<le> of_int ?R * ?u" by simp
  then show ?thesis using e1 by (simp add: round_pos_def ee Let_def max_def)
qed

lemma round_double_eqI:
  assumes "0 < x" and "2 powi e \<le> x" and "x < 2 powi (e + 1)"
    and "- 1022 \<le> e" and "e \<le> 1022"
    and "\<bar>x / 2 powi (e - 52) - of_int m\<bar> < 1 / 2"
  shows "round_double x = Fin (of_int m * 2 powi (e - 52))"
  using assms round_pos_normal [OF assms(1-5)] round_half_even_eqI [OF assms(6)]
  by (simp add: round_double_def)

lemma round_double_2: "round_double 2 = Fin 2"
  using round_double_eqI [of 2 1 "2 ^ 52"] by simp

lemma round_pos_nonneg:
  assumes "0 < x" and "round_pos x = Fin y"
  shows "0 \<le> y"
proof -
  let ?u = "(2::rat) powi (max (exponent_of x) (- 1022) - 52)"
  have u: "0 < ?u" by simp
  have "0 \<le> x / ?u" using assms(1) u by simp
  then have "0 \<le> \<lfloor>x / ?u\<rfloor>" by simp
  then have "0 \<le> round_half_even (x / ?u)" by (auto simp: round_half_even_def Let_def)
  then have "(0::rat) \<le> of_int (round_half_even (x / ?u)) * ?u" using u by simp
  then show ?thesis using assms(2) by (simp add: round_pos_def Let_def split: if_splits)
qed

lemma round_double_normal:
  assumes lo: "2 powi (- 1022) \<le> x" and hi: "x < 2 powi 1023"
  shows "\<exists>y. round_double x = Fin y \<and> \<bar>y - x\<bar> \<le> x / 2 ^ 53 \<and> 0 < y"
proof -
  have x: "0 < x" using lo by (rule less_le_trans [rotated]) simp
  define e where "e = exponent_of x"
  have b: "2 powi e \<le> x" "x < 2 powi (e + 1)" using exponent_of_bounds [OF x] by (simp_all add: e_def)
  have e1: "- 1022 \<le> e"
  proof (rule ccontr)
    assume "\<not> - 1022 \<le> e"
    then have "e + 1 \<le> - 1022" by simp
    then have "(2::rat) powi (e + 1) \<le> 2 powi (- 1022)" by (intro power_int_increasing) auto
    then show False using b(2) lo by linarith
  qed
  have e2: "e \<le> 1022"
  proof (rule ccontr)
    assume "\<not> e \<le> 1022"
    then have "1023 \<le> e" by simp
    then have "(2::rat) powi 1023 \<le> 2 powi e" by (intro power_int_increasing) auto
    then show False using b(1) hi by linarith
  qed
  let ?u = "(2::rat) powi (e - 52)"
  let ?R = "round_half_even (x / ?u)"
  have u: "0 < ?u" by simp
  have r: "round_double x = Fin (of_int ?R * ?u)"
    using round_pos_normal [OF x b e1 e2] x by (simp add: round_double_def)
  have uu: "?u * 2 ^ 52 = 2 powi e"
  proof -
    have "?u * 2 powi 52 = 2 powi (e - 52 + 52)" by (rule power_int_add [symmetric]) simp
    then show ?thesis by simp
  qed
  have "\<bar>of_int ?R - x / ?u\<bar> \<le> 1 / 2" by (rule round_half_even_err)
  then have "\<bar>of_int ?R - x / ?u\<bar> * ?u \<le> 1 / 2 * ?u" using u by (intro mult_right_mono) auto
  then have "\<bar>(of_int ?R - x / ?u) * ?u\<bar> \<le> ?u / 2" using u by (simp add: abs_mult)
  then have err: "\<bar>of_int ?R * ?u - x\<bar> \<le> ?u / 2" using u by (simp add: algebra_simps)
  have "?u / 2 = 2 powi e / 2 ^ 53" using uu [symmetric] by simp
  also have "\<dots> \<le> x / 2 ^ 53" using b(1) by (simp add: divide_right_mono)
  finally have u2: "?u / 2 \<le> x / 2 ^ 53" .
  have "x / 2 ^ 53 < x" using x by simp
  then have "0 < of_int ?R * ?u" using err u2 by linarith
  then show ?thesis using r err u2 by auto
qed

lemma round_double_of_nat:
  assumes "n < 2 ^ 53"
  shows "round_double (of_nat n) = Fin (of_nat n)"
proof (cases "n = 0")
  case True
  then show ?thesis by (simp add: round_double_def)
next
  case False
  let ?x = "of_nat n :: rat"
  have x: "0 < ?x" using False by simp
  define e where "e = exponent_of ?x"
  have b: "2 powi e \<le> ?x" "?x < 2 powi (e + 1)" using exponent_of_bounds [OF x] by (simp_all add: e_def)
  have "(1::rat) \<le> ?x" using False by (simp add: Suc_leI)
  have e0: "0 \<le> e"
  proof (rule ccontr)
    assume "\<not> 0 \<le> e"
    then have "e + 1 \<le> 0" by simp
    then have "(2::rat) powi (e + 1) \<le> 2 powi 0" by (intro power_int_increasing) auto
    then show False using b(2) \<open>1 \<le> ?x\<close> by simp
  qed
  have "?x < of_nat (2 ^ 53)" using assms by (simp only: of_nat_less_iff)
  then have xlt: "?x < 2 powi 53" by simp
  have e52: "e \<le> 52"
  proof (rule ccontr)
    assume "\<not> e \<le> 52"
    then have "53 \<le> e" by simp
    then have "(2::rat) powi 53 \<le> 2 powi e" by (intro power_int_increasing) auto
    then show False using b(1) xlt by linarith
  qed
  define k where "k = nat (52 - e)"
  have u: "(2::rat) powi (e - 52) = 1 / 2 ^ k"
  proof -
    have "(2::rat) powi (e - 52) = 2 powi (- int k)" using e52 by (simp add: k_def)
    then show ?thesis by (simp add: power_int_minus divide_inverse)
  qed
  have m: "?x / 2 powi (e - 52) = of_int (int n * 2 ^ k)" by (simp add: u)
  have "round_double ?x = Fin (of_int (int n * 2 ^ k) * 2 powi (e - 52))"
    using x b e0 e52 by (intro round_double_eqI) (auto simp: m)
  then show ?thesis by (simp add: u)
qed

lemma round_pos_cases: "round_pos x = PosInf \<or> (\<exists>y. round_pos x = Fin y)"
  by (simp add: round_pos_def Let_def)

lemma round_pos_grid:
  assumes "round_pos x = Fin y"
  shows "\<exists>m::int. y = of_int m / 2 ^ 1074"
proof -
  define k where "k = max (exponent_of x) (- 1022) - 52"
  define j where "j = nat (k + 1074)"
  have "- 1074 \<le> k" by (simp add: k_def)
  then have k: "k = int j - 1074" by (simp add: j_def)
  have u: "(2::rat) powi k = 2 ^ j / 2 ^ 1074"
  proof -
    have "(2::rat) powi (int j - 1074) = 2 powi (int j) / 2 powi 1074" by (rule power_int_diff) simp
    then show ?thesis by (simp add: k)
  qed
  have "y = of_int (round_half_even (x / 2 powi k)) * 2 powi k"
    using assms by (simp add: round_pos_def Let_def k_def split: if_splits)
  then have "y = of_int (round_half_even (x / 2 powi k) * 2 ^ j) / 2 ^ 1074" by (simp add: u)
  then show ?thesis by blast
qed

lemma round_double_grid:
  assumes "round_double x = Fin y"
  shows "\<exists>m::int. y = of_int m / 2 ^ 1074"
proof -
  consider "x = 0" | "0 < x" | "x < 0" by linarith
  then show ?thesis
  proof cases
    case 1
    then have "y = of_int 0 / 2 ^ 1074" using assms by (simp add: round_double_def)
    then show ?thesis by blast
  next
    case 2
    then show ?thesis using assms round_pos_grid [of x y] by (simp add: round_double_def)
  next
    case 3
    then have n: "num_neg (round_pos (- x)) = Fin y" using assms by (simp add: round_double_def)
    then obtain z where z: "round_pos (- x) = Fin z" "y = - z" by (cases "round_pos (- x)") auto
    obtain m :: int where "z = of_int m / 2 ^ 1074" using round_pos_grid [OF z(1)] by blast
    then have "y = of_int (- m) / 2 ^ 1074" using z(2) by simp
    then show ?thesis by blast
  qed
qed

lemma divide_mult_cancel_rat: "c \<noteq> 0 \<Longrightarrow> a / c * c = (a::rat)"
  by simp

lemma round_pos_positive:
  assumes x: "0 < x" and g: "x = of_int m / 2 ^ 1074" and r: "round_pos x = Fin y"
  shows "0 < y"
proof -
  define e where "e = exponent_of x"
  define u where "u = (2::rat) powi (max e (- 1022) - 52)"
  have u: "0 < u" by (simp add: u_def)
  have y: "y = of_int (round_half_even (x / u)) * u"
    using r by (simp add: round_pos_def Let_def u_def e_def split: if_splits)
  have "1 \<le> round_half_even (x / u)"
  proof (cases "- 1022 \<le> e")
    case True
    then have ue: "u = 2 powi (e - 52)" by (simp add: u_def max_def)
    have "2 powi e \<le> x" using exponent_of_bounds [OF x] by (simp add: e_def)
    then have "2 powi e / u \<le> x / u" using u by (simp add: divide_right_mono)
    moreover have "2 powi e / u = 2 powi (e - (e - 52))" unfolding ue by (rule power_int_diff [symmetric]) simp
    ultimately have "2 ^ 52 \<le> x / u" by simp
    moreover have "\<bar>of_int (round_half_even (x / u)) - x / u\<bar> \<le> 1 / 2" by (rule round_half_even_err)
    moreover have "(1::rat) \<le> 2 ^ 52" by simp
    ultimately have "(0::rat) < of_int (round_half_even (x / u))" by linarith
    then show ?thesis by simp
  next
    case False
    then have "max e (- 1022) - 52 = - 1074" by simp
    then have "u = 2 powi (- 1074)" by (simp only: u_def)
    also have "\<dots> = inverse (2 powi 1074)" by (rule power_int_minus)
    also have "(2::rat) powi 1074 = 2 ^ 1074" by (rule power_int_numeral)
    finally have ue: "u = inverse (2 ^ 1074)" .
    have c: "(2::rat) ^ 1074 \<noteq> 0" by (rule power_not_zero) simp
    have "x / u = of_int m / 2 ^ 1074 * 2 ^ 1074" by (simp only: g ue divide_inverse inverse_inverse_eq)
    also have "\<dots> = of_int m" by (rule divide_mult_cancel_rat [OF c])
    finally have xu: "x / u = of_int m" .
    have cp: "(0::rat) < 2 ^ 1074" by (rule zero_less_power) simp
    have "(0::rat) < of_int m" using x cp unfolding g by (simp only: zero_less_divide_iff) auto
    then have "0 < m" by simp
    then show ?thesis by (simp add: xu)
  qed
  then have "(1::rat) \<le> of_int (round_half_even (x / u))" by simp
  then have "0 < of_int (round_half_even (x / u)) * u" using u by (intro mult_pos_pos) auto
  then show ?thesis by (simp add: y)
qed

lemma round_double_sign:
  assumes a: "a = of_int ma / 2 ^ 1074" and b: "b = of_int mb / 2 ^ 1074"
  shows "num_gt (round_double (b - a)) (Fin 0) \<longleftrightarrow> a < b"
proof -
  have d: "b - a = of_int (mb - ma) / 2 ^ 1074" by (simp add: a b diff_divide_distrib)
  consider "b - a = 0" | "0 < b - a" | "b - a < 0" by linarith
  then show ?thesis
  proof cases
    case 1
    then show ?thesis by (simp add: round_double_def)
  next
    case 2
    from round_pos_cases [of "b - a"] show ?thesis
    proof
      assume "round_pos (b - a) = PosInf"
      then show ?thesis using 2 by (simp add: round_double_def)
    next
      assume "\<exists>y. round_pos (b - a) = Fin y"
      then obtain y where y: "round_pos (b - a) = Fin y" by blast
      have "0 < y" using 2 d y by (rule round_pos_positive)
      then show ?thesis using 2 y by (simp add: round_double_def)
    qed
  next
    case 3
    then have p: "0 < - (b - a)" by simp
    from round_pos_cases [of "- (b - a)"] show ?thesis
    proof
      assume "round_pos (- (b - a)) = PosInf"
      then show ?thesis using 3 by (simp add: round_double_def)
    next
      assume "\<exists>y. round_pos (- (b - a)) = Fin y"
      then obtain y where y: "round_pos (- (b - a)) = Fin y" by blast
      have "0 \<le> y" using p y by (rule round_pos_nonneg)
      then show ?thesis using 3 y by (simp add: round_double_def)
    qed
  qed
qed

section \<open>Numerals and their values\<close>

lemma less_10_cases:
  "(d::nat) < 10 \<Longrightarrow> d = 0 \<or> d = 1 \<or> d = 2 \<or> d = 3 \<or> d = 4 \<or> d = 5 \<or> d = 6 \<or> d = 7 \<or> d = 8 \<or> d = 9"
  by arith

lemma digit_char_decimal:
  assumes "d < 10"
  shows "is_digit (digit_char d)" and "digit_val (digit_char d) = d"
  using less_10_cases [OF assms]
  by (auto simp: digit_char_def is_digit_def digit_val_def)

lemma digits_val_snoc: "digits_val (ds @ [c]) = 10 * digits_val ds + digit_val c"
  by (simp add: digits_val_def)

lemma digits_val_append:
  "digits_val (xs @ ys) = digits_val xs * 10 ^ length ys + digits_val ys"
proof (induction ys rule: rev_induct)
  case Nil
  then show ?case by (simp add: digits_val_def)
next
  case (snoc y ys)
  have "digits_val (xs @ ys @ [y]) = 10 * digits_val (xs @ ys) + digit_val y"
    using digits_val_snoc [of "xs @ ys" y] by simp
  then show ?case by (simp add: snoc digits_val_snoc algebra_simps)
qed

lemma digits_val_zeros: "digits_val (replicate k (CHR ''0'')) = 0"
proof (induction k)
  case 0
  show ?case by (simp add: digits_val_def)
next
  case (Suc k)
  have "replicate (Suc k) (CHR ''0'') = replicate k (CHR ''0'') @ [CHR ''0'']"
    by (simp add: replicate_append_same)
  then show ?case using Suc by (simp only: digits_val_snoc) (simp add: digit_val_def)
qed

lemma is_digit_zero: "is_digit (CHR ''0'')"
  by (simp add: is_digit_def)

lemma nat_to_string_decimal:
  "list_all is_digit (nat_to_string 10 n) \<and> nat_to_string 10 n \<noteq> [] \<and> digits_val (nat_to_string 10 n) = n"
proof (induction n rule: less_induct)
  case (less n)
  show ?case
  proof (cases "n < 10")
    case True
    then have s: "nat_to_string 10 n = [digit_char n]" by (subst nat_to_string.simps) simp
    show ?thesis using digit_char_decimal [OF True] by (simp add: s digits_val_def)
  next
    case False
    then have s: "nat_to_string 10 n = nat_to_string 10 (n div 10) @ [digit_char (n mod 10)]"
      by (subst nat_to_string.simps) simp
    have "n div 10 < n" using False by simp
    from less.IH [OF this] digit_char_decimal [of "n mod 10"] show ?thesis
      by (simp add: s digits_val_snoc)
  qed
qed

lemma toFixed_2_unfold:
  assumes "0 \<le> p" and "p < 10 ^ 21"
  shows "toFixed 2 (Fin p) = Some (let m0 = nat_to_string 10 (nat \<lfloor>p * 100 + 1 / 2\<rfloor>);
      m = (if length m0 \<le> 2 then replicate (3 - length m0) (CHR ''0'') @ m0 else m0)
      in take (length m - 2) m @ CHR ''.'' # drop (length m - 2) m)"
  using assms by (simp add: toFixed_def Let_def)

lemma toFixed_2_shape:
  assumes "0 \<le> p" and "p < 10 ^ 21"
  shows "\<exists>ip fp. toFixed 2 (Fin p) = Some (ip @ CHR ''.'' # fp) \<and> ip \<noteq> [] \<and> list_all is_digit ip
           \<and> list_all is_digit fp \<and> length fp = 2
           \<and> digits_val ip * 100 + digits_val fp = nat \<lfloor>p * 100 + 1 / 2\<rfloor>"
proof -
  define n where "n = nat \<lfloor>p * 100 + 1 / 2\<rfloor>"
  define m0 where "m0 = nat_to_string 10 n"
  define m where "m = (if length m0 \<le> 2 then replicate (3 - length m0) (CHR ''0'') @ m0 else m0)"
  have m0: "list_all is_digit m0" "m0 \<noteq> []" "digits_val m0 = n"
    using nat_to_string_decimal [of n] by (simp_all add: m0_def)
  have md: "list_all is_digit m"
    using m0(1) is_digit_zero by (simp add: m_def list_all_iff)
  have mv: "digits_val m = n"
    using m0(3) by (simp add: m_def digits_val_append digits_val_zeros)
  have ml: "3 \<le> length m" by (simp add: m_def)
  define ip where "ip = take (length m - 2) m"
  define fp where "fp = drop (length m - 2) m"
  have split: "m = ip @ fp" by (simp add: ip_def fp_def)
  have lf: "length fp = 2" using ml by (simp add: fp_def)
  have li: "ip \<noteq> []" using ml by (auto simp: ip_def)
  have di: "list_all is_digit ip" "list_all is_digit fp"
    using md by (auto simp: ip_def fp_def list_all_iff dest: in_set_takeD in_set_dropD)
  have v: "digits_val ip * 100 + digits_val fp = n"
    using mv digits_val_append [of ip fp] by (simp add: split [symmetric] lf)
  have "toFixed 2 (Fin p) = Some (ip @ CHR ''.'' # fp)"
    unfolding toFixed_2_unfold [OF assms] by (simp only: Let_def n_def m0_def m_def ip_def fp_def)
  then show ?thesis using li di lf v by (auto simp: n_def)
qed

lemma digit_not_special:
  assumes "is_digit c"
  shows "\<not> is_space c" and "c \<noteq> CHR ''-''" and "c \<noteq> CHR ''+''" and "c \<noteq> CHR ''I''" and "c \<noteq> CHR ''.''"
  using assms by (auto simp: is_digit_def is_space_def)

lemma dot_not_digit: "\<not> is_digit (CHR ''.'')"
  by (simp add: is_digit_def)

lemma parseFloat_decimal:
  assumes "ip \<noteq> []" and "list_all is_digit ip" and "list_all is_digit fp"
  shows "parseFloat (ip @ CHR ''.'' # fp)
         = round_double (of_nat (digits_val ip) + of_nat (digits_val fp) / 10 ^ length fp)"
proof -
  obtain c cs where ip: "ip = c # cs" using assms(1) by (cases ip) auto
  have c: "is_digit c" using assms(2) by (simp add: ip)
  let ?s = "ip @ CHR ''.'' # fp"
  have sp: "dropWhile is_space ?s = ?s" using digit_not_special(1) [OF c] by (simp add: ip)
  have sg: "split_sign ?s = (False, ?s)"
    using digit_not_special(2,3) [OF c] by (simp add: split_sign_def ip)
  have inf: "take 8 ?s \<noteq> ''Infinity''" using digit_not_special(4) [OF c] by (simp add: ip)
  have tw: "takeWhile is_digit ?s = ip"
    using assms(2) dot_not_digit by (simp add: takeWhile_append2 list_all_iff)
  have dw: "dropWhile is_digit ?s = CHR ''.'' # fp"
    using assms(2) dot_not_digit by (simp add: dropWhile_append2 list_all_iff)
  have tf: "takeWhile is_digit fp = fp" using assms(3) by (simp add: takeWhile_eq_all_conv list_all_iff)
  have df: "dropWhile is_digit fp = []" using assms(3) by (simp add: list_all_iff)
  have "parseFloat ?s = (if take 8 ?s = ''Infinity'' then PosInf else
       let ip = takeWhile is_digit ?s; r1 = dropWhile is_digit ?s;
           fp = (case r1 of [] \<Rightarrow> [] | c # r \<Rightarrow> if c = CHR ''.'' then takeWhile is_digit r else []);
           r2 = (case r1 of [] \<Rightarrow> [] | c # r \<Rightarrow> if c = CHR ''.'' then dropWhile is_digit r else r1)
       in if ip = [] \<and> fp = [] then NaN
          else
            let v = (of_nat (digits_val ip) + of_nat (digits_val fp) / 10 ^ length fp)
                      * 10 powi exponent_part r2
            in round_double (if False then - v else v))"
    unfolding parseFloat_def sp sg by (simp only: prod.case if_False)
  also have "\<dots> = round_double (of_nat (digits_val ip) + of_nat (digits_val fp) / 10 ^ length fp)"
    unfolding tw dw using inf assms(1) by (simp add: Let_def tf df exponent_part_def)
  finally show ?thesis .
qed

lemma toFixed_parseFloat:
  assumes "0 \<le> p" and "p < 10 ^ 21"
  shows "\<exists>s. toFixed 2 (Fin p) = Some s
           \<and> parseFloat s = round_double (of_nat (nat \<lfloor>p * 100 + 1 / 2\<rfloor>) / 100)"
proof -
  obtain ip fp where f: "toFixed 2 (Fin p) = Some (ip @ CHR ''.'' # fp)" "ip \<noteq> []"
    "list_all is_digit ip" "list_all is_digit fp" "length fp = 2"
    "digits_val ip * 100 + digits_val fp = nat \<lfloor>p * 100 + 1 / 2\<rfloor>"
    using toFixed_2_shape [OF assms] by blast
  have "(of_nat (digits_val ip) :: rat) + of_nat (digits_val fp) / 10 ^ length fp
        = of_nat (digits_val ip * 100 + digits_val fp) / 100"
    by (simp add: f(5) add_divide_distrib)
  then have "parseFloat (ip @ CHR ''.'' # fp) = round_double (of_nat (nat \<lfloor>p * 100 + 1 / 2\<rfloor>) / 100)"
    using parseFloat_decimal [OF f(2,3,4)] by (simp only: f(6))
  then show ?thesis using f(1) by blast
qed

lemma round_double_bounded:
  assumes x: "0 < x" and xb: "x \<le> B" and b1: "1 \<le> B" and b2: "B \<le> 2 ^ 1000"
  shows "\<exists>y. round_double x = Fin y \<and> 0 \<le> y \<and> y \<le> 2 * B"
proof -
  define e where "e = exponent_of x"
  define u where "u = (2::rat) powi (max e (- 1022) - 52)"
  define y where "y = of_int (round_half_even (x / u)) * u"
  have u: "0 < u" by (simp add: u_def)
  have ux: "u \<le> B"
  proof (cases "- 1022 \<le> e")
    case True
    then have ue: "u = 2 powi (e - 52)" by (simp add: u_def max_def)
    have "(2::rat) powi (e - 52) \<le> 2 powi e" by (intro power_int_increasing) auto
    also have "\<dots> \<le> x" using exponent_of_bounds [OF x] by (simp add: e_def)
    finally show ?thesis using xb ue by simp
  next
    case False
    then have "max e (- 1022) - 52 = - 1074" by simp
    then have "u = 2 powi (- 1074)" by (simp only: u_def)
    also have "\<dots> \<le> 2 powi 0" by (intro power_int_increasing) auto
    finally show ?thesis using b1 by simp
  qed
  have "of_int (round_half_even (x / u)) \<le> x / u + 1 / 2"
    using round_half_even_err [of "x / u"] by linarith
  then have "of_int (round_half_even (x / u)) * u \<le> (x / u + 1 / 2) * u"
    using u by (intro mult_right_mono) auto
  also have "\<dots> = x + u / 2" using u by (simp add: algebra_simps)
  finally have yb: "y \<le> x + u / 2" by (simp add: y_def)
  have "u / 2 \<le> u" using u by simp
  then have y2: "y \<le> 2 * B" using yb xb ux by linarith
  have "(2::rat) * 2 ^ 1000 = 2 ^ 1001" by (simp only: power_Suc [symmetric]) simp
  moreover have "(2::rat) ^ 1001 < 2 ^ 1024" by (rule power_strict_increasing) simp_all
  ultimately have "y < 2 ^ 1024" using y2 b2 by linarith
  then have r: "round_pos x = Fin y" by (simp add: round_pos_def Let_def y_def u_def e_def)
  then have "0 \<le> y" using x by (rule round_pos_nonneg [rotated])
  then show ?thesis using r y2 x by (auto simp: round_double_def)
qed

lemma round_double_bounded0:
  assumes "0 \<le> x" and "x \<le> B" and "1 \<le> B" and "B \<le> 2 ^ 1000"
  shows "\<exists>y. round_double x = Fin y \<and> 0 \<le> y \<and> y \<le> 2 * B"
proof (cases "x = 0")
  case True
  then show ?thesis using assms(3) by (simp add: round_double_def)
next
  case False
  then have "0 < x" using assms(1) by simp
  then show ?thesis using assms(2-4) by (rule round_double_bounded)
qed

section \<open>The text of a share\<close>

lemma le_pow_1000: "x \<le> 1024 \<Longrightarrow> x \<le> (2::rat) ^ 1000"
proof -
  assume "x \<le> 1024"
  moreover have "(2::rat) ^ 10 \<le> 2 ^ 1000" by (rule power_increasing) simp_all
  ultimately show ?thesis by simp
qed

lemma floor_half_bounds:
  fixes p :: rat
  assumes "0 \<le> p"
  shows "\<bar>of_nat (nat \<lfloor>p * 100 + 1 / 2\<rfloor>) / 100 - p\<bar> \<le> 1 / 200"
    and "0 \<le> (of_nat (nat \<lfloor>p * 100 + 1 / 2\<rfloor>) :: rat) / 100"
proof -
  let ?f = "\<lfloor>p * 100 + 1 / 2\<rfloor>"
  have "0 \<le> ?f" using assms by simp
  then have n: "(of_nat (nat ?f) :: rat) = of_int ?f" by simp
  have "of_int ?f \<le> p * 100 + 1 / 2" "p * 100 + 1 / 2 < of_int ?f + 1" by linarith+
  then show "\<bar>of_nat (nat ?f) / 100 - p\<bar> \<le> 1 / 200" unfolding n by linarith
  show "0 \<le> (of_nat (nat ?f) :: rat) / 100" by simp
qed

lemma perc_of_finite:
  assumes "1 \<le> val" and "val \<le> T"
  shows "\<exists>s v. perc_of val T = Some s \<and> parseFloat s = Fin v \<and> 0 \<le> v"
proof -
  let ?x = "of_nat val / of_nat T :: rat"
  have T: "0 < T" using assms by simp
  have x: "0 < ?x" "?x \<le> 1" using assms T by simp_all
  obtain q where q: "round_double ?x = Fin q" "0 \<le> q" "q \<le> 2"
    using round_double_bounded [OF x(1) x(2)] le_pow_1000 [of 1] by auto
  have "0 \<le> q * 100" "q * 100 \<le> 200" using q by simp_all
  then obtain p where p: "round_double (q * 100) = Fin p" "0 \<le> p" "p \<le> 400"
    using round_double_bounded0 [of "q * 100" 200] le_pow_1000 [of 200] by auto
  have pc: "perc_of val T = toFixed 2 (Fin p)"
    using T q(1) p(1) by (simp add: perc_of_def)
  have "p < 10 ^ 21" using p(3) by simp
  then obtain s where s: "toFixed 2 (Fin p) = Some s"
    "parseFloat s = round_double (of_nat (nat \<lfloor>p * 100 + 1 / 2\<rfloor>) / 100)"
    using toFixed_parseFloat [OF p(2)] by blast
  let ?d = "of_nat (nat \<lfloor>p * 100 + 1 / 2\<rfloor>) / 100 :: rat"
  have "?d \<le> 401" using floor_half_bounds(1) [OF p(2)] p(3) by linarith
  then obtain v where "round_double ?d = Fin v" "0 \<le> v"
    using round_double_bounded0 [of ?d 401] floor_half_bounds(2) [OF p(2)] le_pow_1000 [of 401] by auto
  then show ?thesis using pc s by auto
qed

lemma pow_neg_1022_le: "(2::rat) powi (- 1022) \<le> 1 / 2 ^ 40"
proof -
  have "(2::rat) powi (- 1022) \<le> 2 powi (- 40)" by (rule power_int_increasing) simp_all
  also have "\<dots> = 1 / 2 ^ 40" by (simp add: power_int_minus_divide)
  finally show ?thesis .
qed

lemma lt_pow_1023:
  assumes "x \<le> 1024"
  shows "x < (2::rat) powi 1023"
proof -
  have "x < 2 powi 11" using assms by simp
  moreover have "(2::rat) powi 11 \<le> 2 powi 1023" by (rule power_int_increasing) simp_all
  ultimately show ?thesis by (rule less_le_trans)
qed

lemma round_double_mid:
  assumes "1 / 2 ^ 40 \<le> x" and "x \<le> 1024"
  shows "\<exists>y. round_double x = Fin y \<and> \<bar>y - x\<bar> \<le> x / 2 ^ 53 \<and> 0 < y"
proof -
  have a: "2 powi (- 1022) \<le> x" by (rule order_trans [OF pow_neg_1022_le assms(1)])
  have b: "x < 2 powi 1023" by (rule lt_pow_1023 [OF assms(2)])
  show ?thesis by (rule round_double_normal [OF a b])
qed

lemma one_le_of_nat: "n \<noteq> 0 \<Longrightarrow> (1::rat) \<le> of_nat n"
  by (cases n) simp_all

lemma rel_to_abs:
  fixes x y B e :: rat
  assumes "\<bar>y - x\<bar> \<le> x / 2 ^ 53" and "x \<le> B" and "e = 1 / 2 ^ 53"
  shows "\<bar>y - x\<bar> \<le> B * e"
proof -
  have "x / 2 ^ 53 \<le> B / 2 ^ 53" using assms(2) by (simp add: divide_right_mono)
  then show ?thesis using assms(1) by (simp add: assms(3))
qed

lemma perc_of_accurate:
  assumes v1: "1 \<le> val" and v2: "val \<le> T" and T: "T < 2 ^ 32"
  shows "\<exists>s v. perc_of val T = Some s \<and> parseFloat s = Fin v
           \<and> \<bar>v - 100 * of_nat val / of_nat T\<bar> \<le> 1 / 100"
proof -
  define x :: rat where "x = of_nat val / of_nat T"
  define a32 a40 e :: rat where "a32 = 1 / 2 ^ 32" and "a40 = 1 / 2 ^ 40" and "e = 1 / 2 ^ 53"
  have c: "a40 \<le> a32 / 200" "0 < a40" "a40 \<le> 1 / 100" "0 < e" "e \<le> 1 / 1000000"
    by (simp_all add: a32_def a40_def e_def)
  have Tp: "0 < T" using v1 v2 by simp
  have "(of_nat T :: rat) < of_nat (2 ^ 32)" using T by (simp only: of_nat_less_iff)
  then have Tr: "(of_nat T :: rat) < 2 ^ 32" by simp
  have x1: "x \<le> 1" using v2 Tp by (simp add: x_def)
  have "1 / of_nat T \<le> x" using v1 Tp by (simp add: x_def divide_right_mono)
  moreover have "(1::rat) / 2 ^ 32 < 1 / of_nat T" using Tr Tp by (simp add: frac_less2)
  ultimately have x0: "a32 < x" unfolding a32_def by linarith
  have "a40 \<le> x" using x0 c by linarith
  then obtain q where q: "round_double x = Fin q" "\<bar>q - x\<bar> \<le> x / 2 ^ 53" "0 < q"
    using round_double_mid [of x] x1 unfolding a40_def by auto
  have qe: "\<bar>q - x\<bar> \<le> 1 * e" using q(2) x1 e_def by (rule rel_to_abs)
  have qb: "q \<le> 2" using qe x1 c by linarith
  have xp: "0 < x" using x0 c by linarith
  have "x / 2 ^ 53 \<le> x / 2" using xp by (intro divide_left_mono) auto
  then have ql: "a32 / 2 \<le> q" using q(2) x0 by linarith
  have "a40 \<le> q * 100" using ql c by linarith
  moreover have q200: "q * 100 \<le> 200" using qb by simp
  moreover have "q * 100 \<le> 1024" using qb by simp
  ultimately obtain p where p: "round_double (q * 100) = Fin p" "\<bar>p - q * 100\<bar> \<le> q * 100 / 2 ^ 53" "0 < p"
    using round_double_mid [of "q * 100"] unfolding a40_def by auto
  have e2: "\<bar>p - q * 100\<bar> \<le> 200 * e" using p(2) q200 e_def by (rule rel_to_abs)
  have pb: "p \<le> 400" using e2 q200 c by linarith
  have pc: "perc_of val T = toFixed 2 (Fin p)"
    using Tp q(1) p(1) by (simp add: perc_of_def x_def)
  have p0: "0 \<le> p" using p(3) by simp
  have "p < 10 ^ 21" using pb by simp
  then obtain s where s: "toFixed 2 (Fin p) = Some s"
    "parseFloat s = round_double (of_nat (nat \<lfloor>p * 100 + 1 / 2\<rfloor>) / 100)"
    using toFixed_parseFloat [OF p0] by blast
  define d :: rat where "d = of_nat (nat \<lfloor>p * 100 + 1 / 2\<rfloor>) / 100"
  have d: "\<bar>d - p\<bar> \<le> 1 / 200" using floor_half_bounds(1) [OF p0] by (simp add: d_def)
  have db: "d \<le> 401" using d pb by linarith
  have "\<exists>v. round_double d = Fin v \<and> \<bar>v - d\<bar> \<le> d / 2 ^ 53"
  proof (cases "nat \<lfloor>p * 100 + 1 / 2\<rfloor> = 0")
    case True
    then show ?thesis by (simp add: round_double_def d_def)
  next
    case False
    then have "(1::rat) \<le> of_nat (nat \<lfloor>p * 100 + 1 / 2\<rfloor>)" by (rule one_le_of_nat)
    then have "1 / 100 \<le> d" by (simp add: d_def)
    then have "a40 \<le> d" using c by linarith
    moreover have "d \<le> 1024" using db by linarith
    ultimately show ?thesis using round_double_mid [of d] unfolding a40_def by auto
  qed
  then obtain v where v: "round_double d = Fin v" "\<bar>v - d\<bar> \<le> d / 2 ^ 53" by blast
  have e1: "\<bar>v - d\<bar> \<le> 401 * e" using v(2) db e_def by (rule rel_to_abs)
  have "\<bar>v - 100 * x\<bar> \<le> 1 / 100" using e1 d e2 qe c by linarith
  then have "\<bar>v - 100 * of_nat val / of_nat T\<bar> \<le> 1 / 100" by (simp add: x_def)
  then show ?thesis using pc s v(1) by (auto simp: d_def)
qed

section \<open>The comparator and the sort\<close>

lemma parseFloat_grid:
  assumes "parseFloat s = Fin v"
  shows "\<exists>m::int. v = of_int m / 2 ^ 1074"
proof -
  obtain x where "round_double x = Fin v"
    using assms by (auto simp: parseFloat_def Let_def split: prod.splits if_splits)
  then show ?thesis by (rule round_double_grid)
qed

lemma compare_perc_gt:
  assumes "parseFloat a = Fin va" and "parseFloat b = Fin vb"
  shows "num_gt (compare_perc (ka, a) (kb, b)) (Fin 0) \<longleftrightarrow> va < vb"
proof -
  obtain ma :: int where ma: "va = of_int ma / 2 ^ 1074" using parseFloat_grid [OF assms(1)] by blast
  obtain mb :: int where mb: "vb = of_int mb / 2 ^ 1074" using parseFloat_grid [OF assms(2)] by blast
  show ?thesis using round_double_sign [OF ma mb] by (simp add: compare_perc_def assms)
qed

lemma insert_sorted_insort_key:
  assumes "\<forall>e\<in>set (x # ys). is_finite (parseFloat (snd e))"
  shows "insert_sorted compare_perc x ys = insort_key (\<lambda>e. - perc_value (snd e)) x ys"
  using assms
proof (induction ys)
  case Nil
  then show ?case by simp
next
  case (Cons y ys)
  obtain kx a where x: "x = (kx, a)" by (cases x)
  obtain ky b where y: "y = (ky, b)" by (cases y)
  have "is_finite (parseFloat a)" using Cons.prems by (simp add: x)
  then obtain va where va: "parseFloat a = Fin va" by (cases "parseFloat a") auto
  have "is_finite (parseFloat b)" using Cons.prems by (simp add: y)
  then obtain vb where vb: "parseFloat b = Fin vb" by (cases "parseFloat b") auto
  have g: "num_gt (compare_perc x y) (Fin 0) \<longleftrightarrow> va < vb"
    unfolding x y using va vb by (rule compare_perc_gt)
  have ih: "insert_sorted compare_perc x ys = insort_key (\<lambda>e. - perc_value (snd e)) x ys"
    using Cons.prems by (intro Cons.IH) auto
  show ?case using g ih by (auto simp: x y perc_value_def va vb)
qed

lemma array_sort_sort_key:
  assumes "\<forall>e\<in>set pm. is_finite (parseFloat (snd e))"
  shows "array_sort compare_perc pm = sort_key (\<lambda>e. - perc_value (snd e)) pm"
  using assms
proof (induction pm)
  case Nil
  then show ?case by (simp add: array_sort_def)
next
  case (Cons x pm)
  have ih: "array_sort compare_perc pm = sort_key (\<lambda>e. - perc_value (snd e)) pm"
    using Cons by simp
  have "\<forall>e\<in>set (x # sort_key (\<lambda>e. - perc_value (snd e)) pm). is_finite (parseFloat (snd e))"
    using Cons.prems by simp
  then have "insert_sorted compare_perc x (sort_key (\<lambda>e. - perc_value (snd e)) pm)
        = insort_key (\<lambda>e. - perc_value (snd e)) x (sort_key (\<lambda>e. - perc_value (snd e)) pm)"
    by (rule insert_sorted_insort_key)
  then show ?case using ih by (simp add: array_sort_def)
qed

section \<open>The reference data\<close>

lemma toFixed_2_eval:
  assumes "0 \<le> p" and "p < 10 ^ 21"
    and "of_nat n \<le> p * 100 + 1 / 2" and "p * 100 + 1 / 2 < of_nat n + 1"
    and "nat_to_string 10 n = ds" and "3 \<le> length ds"
  shows "toFixed 2 (Fin p) = Some (take (length ds - 2) ds @ CHR ''.'' # drop (length ds - 2) ds)"
proof -
  have "\<lfloor>p * 100 + 1 / 2\<rfloor> = int n" using assms(3,4) by (intro floor_unique) simp_all
  then have "nat \<lfloor>p * 100 + 1 / 2\<rfloor> = n" by simp
  then show ?thesis using assms(6) unfolding toFixed_2_unfold [OF assms(1,2)] by (simp add: assms(5) Let_def)
qed

lemma perc_of_2_6: "perc_of 2 6 = Some ''33.33''"
proof -
  have q: "round_double (2 / 6) = Fin (6004799503160661 / 18014398509481984)"
    using round_double_eqI [of "2 / 6" "- 2" 6004799503160661] by simp
  have p: "round_double (6004799503160661 / 18014398509481984 * 100) = Fin (2345624805922133 / 70368744177664)"
    using round_double_eqI [of "6004799503160661 / 18014398509481984 * 100" 5 4691249611844266] by simp
  have s: "nat_to_string 10 3333 = ''3333''" by (simp add: nat_to_string.simps digit_char_def)
  have "toFixed 2 (Fin (2345624805922133 / 70368744177664)) = Some ''33.33''"
    using toFixed_2_eval [of "2345624805922133 / 70368744177664" 3333 "''3333''"] s by simp
  then show ?thesis using q p by (simp add: perc_of_def)
qed

lemma perc_of_1_6: "perc_of (Suc 0) 6 = Some ''16.67''"
proof -
  have q: "round_double (1 / 6) = Fin (6004799503160661 / 36028797018963968)"
    using round_double_eqI [of "1 / 6" "- 3" 6004799503160661] by simp
  have p: "round_double (6004799503160661 / 36028797018963968 * 100) = Fin (2345624805922133 / 140737488355328)"
    using round_double_eqI [of "6004799503160661 / 36028797018963968 * 100" 4 4691249611844266] by simp
  have s: "nat_to_string 10 1667 = ''1667''" by (simp add: nat_to_string.simps digit_char_def)
  have "toFixed 2 (Fin (2345624805922133 / 140737488355328)) = Some ''16.67''"
    using toFixed_2_eval [of "2345624805922133 / 140737488355328" 1667 "''1667''"] s by simp
  then show ?thesis using q p by (simp add: perc_of_def)
qed

lemma perc_of_3_6: "perc_of 3 6 = Some ''50.00''"
proof -
  have q: "round_double (3 / 6) = Fin (1 / 2)"
    using round_double_eqI [of "3 / 6" "- 1" 4503599627370496] by simp
  have p: "round_double (1 / 2 * 100) = Fin 50"
    using round_double_eqI [of "1 / 2 * 100" 5 7036874417766400] by simp
  have s: "nat_to_string 10 5000 = ''5000''" by (simp add: nat_to_string.simps digit_char_def)
  have "toFixed 2 (Fin 50) = Some ''50.00''"
    using toFixed_2_eval [of 50 5000 "''5000''"] s by simp
  then show ?thesis using q p by (simp add: perc_of_def)
qed

lemma parseFloat_3333: "parseFloat ''33.33'' = Fin (2345390243441541 / 70368744177664)"
proof -
  have "parseFloat (''33'' @ CHR ''.'' # ''33'') = round_double (of_nat (digits_val ''33'') + of_nat (digits_val ''33'') / 10 ^ length ''33'')"
    by (rule parseFloat_decimal) (simp_all add: is_digit_def)
  moreover have "round_double (3333 / 100) = Fin (2345390243441541 / 70368744177664)"
    using round_double_eqI [of "3333 / 100" 5 4690780486883082] by simp
  ultimately show ?thesis by (simp add: digits_val_def digit_val_def)
qed

lemma parseFloat_1667: "parseFloat ''16.67'' = Fin (1173046965441659 / 70368744177664)"
proof -
  have "parseFloat (''16'' @ CHR ''.'' # ''67'') = round_double (of_nat (digits_val ''16'') + of_nat (digits_val ''67'') / 10 ^ length ''67'')"
    by (rule parseFloat_decimal) (simp_all add: is_digit_def)
  moreover have "round_double (1667 / 100) = Fin (1173046965441659 / 70368744177664)"
    using round_double_eqI [of "1667 / 100" 4 4692187861766636] by simp
  ultimately show ?thesis by (simp add: digits_val_def digit_val_def)
qed

lemma parseFloat_5000: "parseFloat ''50.00'' = Fin 50"
proof -
  have "parseFloat (''50'' @ CHR ''.'' # ''00'') = round_double (of_nat (digits_val ''50'') + of_nat (digits_val ''00'') / 10 ^ length ''00'')"
    by (rule parseFloat_decimal) (simp_all add: is_digit_def)
  moreover have "round_double 50 = Fin 50"
    using round_double_eqI [of 50 5 7036874417766400] by simp
  ultimately show ?thesis by (simp add: digits_val_def digit_val_def)
qed

lemma mock_langs:
  "langs_of (with_language mockRepos) = [(''TypeScript'', 2), (''JavaScript'', 1), (''Python'', 3)]"
  by (simp add: langs_of_def tally_step_def with_language_def mockRepos_def mockRepo_def map_set_def map_get_def)

lemma mock_percMap:
  "percMap_of [(''TypeScript'', 2), (''JavaScript'', 1), (''Python'', 3)]
   = Some [(''TypeScript'', ''33.33''), (''JavaScript'', ''16.67''), (''Python'', ''50.00'')]"
  by (simp add: percMap_of_def total_of_def perc_of_2_6 perc_of_1_6 perc_of_3_6 map_set_def)

lemma mock_ranked:
  "array_sort compare_perc [(''TypeScript'', ''33.33''), (''JavaScript'', ''16.67''), (''Python'', ''50.00'')]
   = [(''Python'', ''50.00''), (''TypeScript'', ''33.33''), (''JavaScript'', ''16.67'')]"
proof -
  have "array_sort compare_perc [(''TypeScript'', ''33.33''), (''JavaScript'', ''16.67''), (''Python'', ''50.00'')]
        = sort_key (\<lambda>e. - perc_value (snd e)) [(''TypeScript'', ''33.33''), (''JavaScript'', ''16.67''), (''Python'', ''50.00'')]"
    by (rule array_sort_sort_key) (simp add: parseFloat_3333 parseFloat_1667 parseFloat_5000)
  then show ?thesis by (simp add: perc_value_def parseFloat_3333 parseFloat_1667 parseFloat_5000)
qed

section \<open>The claims\<close>

text \<open>
  C1. The seven records of the test suite (TypeScript twice, JavaScript once, Python three
  times, one record without language) yield the shares Python 50.00, TypeScript 33.33 and
  JavaScript 16.67, ranked in this order.
\<close>

theorem reference_shares:
  "map_option (array_sort compare_perc) (percMap_of (langs_of (with_language mockRepos)))
   = Some [(''Python'', ''50.00''), (''TypeScript'', ''33.33''), (''JavaScript'', ''16.67'')]"
  unfolding mock_langs mock_percMap by (simp add: mock_ranked)

lemma less_16_cases:
  "(d::nat) < 16 \<Longrightarrow> d = 0 \<or> d = 1 \<or> d = 2 \<or> d = 3 \<or> d = 4 \<or> d = 5 \<or> d = 6 \<or> d = 7
     \<or> d = 8 \<or> d = 9 \<or> d = 10 \<or> d = 11 \<or> d = 12 \<or> d = 13 \<or> d = 14 \<or> d = 15"
  by arith

lemma digit_char_hex: "d < 16 \<Longrightarrow> is_hex_lower (digit_char d)"
  using less_16_cases [of d] by (auto simp: digit_char_def is_hex_lower_def)

lemma hex_byte:
  assumes "n < 256"
  shows "length (padStart 2 (CHR ''0'') (nat_to_string 16 n)) = 2"
    and "list_all is_hex_lower (padStart 2 (CHR ''0'') (nat_to_string 16 n))"
proof -
  have z: "is_hex_lower (CHR ''0'')" by (simp add: is_hex_lower_def)
  show "length (padStart 2 (CHR ''0'') (nat_to_string 16 n)) = 2"
  proof (cases "n < 16")
    case True
    then have "nat_to_string 16 n = [digit_char n]" by (subst nat_to_string.simps) simp
    then show ?thesis by (simp add: padStart_def)
  next
    case False
    have "n div 16 < 16" using assms by simp
    then have "nat_to_string 16 (n div 16) = [digit_char (n div 16)]" by (subst nat_to_string.simps) simp
    then have "nat_to_string 16 n = [digit_char (n div 16), digit_char (n mod 16)]"
      using False by (subst nat_to_string.simps) simp
    then show ?thesis by (simp add: padStart_def)
  qed
  show "list_all is_hex_lower (padStart 2 (CHR ''0'') (nat_to_string 16 n))"
  proof (cases "n < 16")
    case True
    then have "nat_to_string 16 n = [digit_char n]" by (subst nat_to_string.simps) simp
    then show ?thesis using z digit_char_hex [OF True] by (simp add: padStart_def)
  next
    case False
    have d: "n div 16 < 16" using assms by simp
    then have "nat_to_string 16 (n div 16) = [digit_char (n div 16)]" by (subst nat_to_string.simps) simp
    then have "nat_to_string 16 n = [digit_char (n div 16), digit_char (n mod 16)]"
      using False by (subst nat_to_string.simps) simp
    then show ?thesis using digit_char_hex [OF d] digit_char_hex [of "n mod 16"] by (simp add: padStart_def)
  qed
qed

lemma unat_byte: "unat (b :: 8 word) < 256"
  using unsigned_less [of b] by simp

lemma hex_bytes:
  "length (concat (map (\<lambda>b :: 8 word. padStart 2 (CHR ''0'') (nat_to_string 16 (unat b))) bs)) = 2 * length bs
   \<and> list_all is_hex_lower (concat (map (\<lambda>b. padStart 2 (CHR ''0'') (nat_to_string 16 (unat b))) bs))"
  by (induction bs) (simp_all add: hex_byte unat_byte)

lemma length_sha1_digest: "length (sha1_digest m) = 20"
  by (simp add: sha1_digest_def word_bytes_def split: prod.splits)

lemma sha1Hash_hex: "length (sha1Hash msg) = 40 \<and> list_all is_hex_lower (sha1Hash msg)"
  using hex_bytes [of "sha1_digest (utf8_encode msg)"] by (simp add: sha1Hash_def length_sha1_digest)

text \<open>
  C10. For every string, the empty one included, the color is the character \<open>#\<close> followed
  by exactly six lower-case hexadecimal characters: the digest has twenty bytes, each
  printed with two characters, of which the first six are taken.
\<close>

theorem stringToHexColor_wellformed:
  "\<exists>h. stringToHexColor str = CHR ''#'' # h \<and> length h = 6 \<and> list_all is_hex_lower h"
proof -
  have "length (take 6 (sha1Hash str)) = 6" using sha1Hash_hex [of str] by simp
  moreover have "list_all is_hex_lower (take 6 (sha1Hash str))"
    using sha1Hash_hex [of str] by (auto simp: list_all_iff dest: in_set_takeD)
  ultimately show ?thesis by (simp add: stringToHexColor_def)
qed

lemma length_stringToHexColor: "length (stringToHexColor str) = 7"
  using sha1Hash_hex [of str] by (simp add: stringToHexColor_def)

lemma document_starts: "\<exists>rest. document height langItems = CHR 0x0A # rest"
  by (simp add: document_def)

lemma JSON_stringify_starts: "\<exists>rest. JSON_stringify obj = CHR ''{'' # rest"
  by (simp add: JSON_stringify_def)

lemma JSON_stringify_not_svg: "JSON_stringify obj \<noteq> generateSvg percMap count"
proof
  assume a: "JSON_stringify obj = generateSvg percMap count"
  obtain r1 where r1: "JSON_stringify obj = CHR ''{'' # r1" using JSON_stringify_starts by blast
  obtain r2 where r2: "generateSvg percMap count = CHR 0x0A # r2"
    using document_starts by (auto simp: generateSvg_def Let_def)
  show False using a r1 r2 by simp
qed

text \<open>
  C8. When the repository listing answers with a status outside 200..299, the handler
  returns one response and nothing else: status 500, a JSON body whose \<open>message\<close> is
  \<open>GitHub API error: \<close> followed by the status code, a space and the status text of
  the listing's answer; that body is not a rendered chart.
\<close>

theorem upstream_error:
  assumes "http_method req = ''GET''"
    and "r = api (repos_url (username_of (pathname req))) (request_headers env)"
    and "\<not> api_ok r"
  shows "fetch api req env =
           Some \<lparr>status = 500,
                 headers = (''Content-Type'', ''application/json'') # corsHeaders,
                 body = Some (JSON_stringify
                   [(''error'', ''Failed to fetch repository data''),
                    (''message'', ''GitHub API error: '' @ nat_to_string 10 (api_status r)
                                  @ '' '' @ api_statusText r)])\<rparr>
         \<and> (\<forall>resp percMap count. fetch api req env = Some resp \<longrightarrow> body resp \<noteq> Some (generateSvg percMap count))"
proof -
  have e: "fetchGitHubRepos api (username_of (pathname req)) env
           = Inl (Error (''GitHub API error: '' @ nat_to_string 10 (api_status r) @ '' '' @ api_statusText r))"
    using assms(2,3) by (simp add: fetchGitHubRepos_def Let_def)
  have f: "fetch api req env = Some (catch_response
             (Error (''GitHub API error: '' @ nat_to_string 10 (api_status r) @ '' '' @ api_statusText r)))"
    using assms(1) by (simp add: fetch_def Let_def e)
  show ?thesis unfolding f by (simp add: catch_response_def JSON_stringify_not_svg)
qed

theorem upstream_error_witness:
  "fetch (\<lambda>url hs. \<lparr>api_status = 403, api_statusText = ''Forbidden'', api_json = []\<rparr>)
         \<lparr>http_method = ''GET'', pathname = ''/testuser'', top_param = None\<rparr> \<lparr>GH_KEY = ''key''\<rparr>
   = Some \<lparr>status = 500,
           headers = (''Content-Type'', ''application/json'') # corsHeaders,
           body = Some (JSON_stringify
             [(''error'', ''Failed to fetch repository data''),
              (''message'', ''GitHub API error: 403 Forbidden'')])\<rparr>"
  using upstream_error [of "\<lparr>http_method = ''GET'', pathname = ''/testuser'', top_param = None\<rparr>"
      "\<lparr>api_status = 403, api_statusText = ''Forbidden'', api_json = []\<rparr>"
      "\<lambda>url hs. \<lparr>api_status = 403, api_statusText = ''Forbidden'', api_json = []\<rparr>"
      "\<lparr>GH_KEY = ''key''\<rparr>"]
  by (simp add: api_ok_def nat_to_string.simps digit_char_def)

lemma tally_step_Some:
  assumes "language r = Some k"
  shows "tally_step acc r = AList.update k ((case map_of acc k of None \<Rightarrow> 0 | Some c \<Rightarrow> c) + 1) acc"
  using assms by (simp add: tally_step_def map_set_def map_get_def)

lemma tally_count:
  assumes "\<forall>r\<in>set rs. language r \<noteq> None"
  shows "(case map_of (foldl tally_step acc rs) l of None \<Rightarrow> 0 | Some c \<Rightarrow> c)
         = (case map_of acc l of None \<Rightarrow> 0 | Some c \<Rightarrow> c) + length (filter (\<lambda>r. language r = Some l) rs)"
  using assms
proof (induction rs arbitrary: acc)
  case Nil
  then show ?case by simp
next
  case (Cons r rs)
  obtain k where k: "language r = Some k" using Cons.prems by auto
  have ih: "(case map_of (foldl tally_step (tally_step acc r) rs) l of None \<Rightarrow> 0 | Some c \<Rightarrow> c)
         = (case map_of (tally_step acc r) l of None \<Rightarrow> 0 | Some c \<Rightarrow> c) + length (filter (\<lambda>r. language r = Some l) rs)"
    using Cons.prems by (intro Cons.IH) simp
  show ?case unfolding foldl_Cons ih by (simp add: tally_step_Some [OF k] k AList.update_conv')
qed

lemma tally_positive:
  assumes "\<forall>r\<in>set rs. language r \<noteq> None" and "\<forall>k c. map_of acc k = Some c \<longrightarrow> 0 < c"
  shows "\<forall>k c. map_of (foldl tally_step acc rs) k = Some c \<longrightarrow> 0 < c"
  using assms
proof (induction rs arbitrary: acc)
  case Nil
  then show ?case by simp
next
  case (Cons r rs)
  obtain k where k: "language r = Some k" using Cons.prems by auto
  have "\<forall>k c. map_of (tally_step acc r) k = Some c \<longrightarrow> 0 < c"
    using Cons.prems(2) by (auto simp: tally_step_Some [OF k] AList.update_conv')
  then show ?case using Cons.prems(1) Cons.IH [of "tally_step acc r"] by simp
qed

lemma tally_distinct:
  assumes "distinct (map fst acc)"
  shows "distinct (map fst (foldl tally_step acc rs))"
  using assms
proof (induction rs arbitrary: acc)
  case Nil
  then show ?case by simp
next
  case (Cons r rs)
  have "distinct (map fst (tally_step acc r))"
    using Cons.prems by (simp add: tally_step_def map_set_def Let_def AList.distinct_update)
  then show ?case using Cons.IH by simp
qed

lemma tally_keys:
  assumes "\<forall>r\<in>set rs. language r \<noteq> None"
  shows "map fst (foldl tally_step acc rs)
         = map fst acc @ first_seen (filter (\<lambda>k. k \<notin> set (map fst acc)) (map (\<lambda>r. the (language r)) rs))"
  using assms
proof (induction rs arbitrary: acc)
  case Nil
  then show ?case by simp
next
  case (Cons r rs)
  obtain k where k: "language r = Some k" using Cons.prems by auto
  let ?acc = "tally_step acc r"
  have ih: "map fst (foldl tally_step ?acc rs)
         = map fst ?acc @ first_seen (filter (\<lambda>k. k \<notin> set (map fst ?acc)) (map (\<lambda>r. the (language r)) rs))"
    using Cons.prems by (intro Cons.IH) simp
  show ?case
  proof (cases "k \<in> set (map fst acc)")
    case True
    then have "map fst ?acc = map fst acc" by (simp add: tally_step_Some [OF k] AList.update_keys)
    then show ?thesis using ih True by (simp add: k)
  next
    case False
    then have a: "map fst ?acc = map fst acc @ [k]" by (simp add: tally_step_Some [OF k] AList.update_keys)
    have "filter (\<lambda>x. x \<notin> set (map fst ?acc)) (map (\<lambda>r. the (language r)) rs)
          = filter (\<lambda>y. y \<noteq> k) (filter (\<lambda>x. x \<notin> set (map fst acc)) (map (\<lambda>r. the (language r)) rs))"
      unfolding a by (auto simp: filter_filter intro: filter_cong)
    then show ?thesis using ih False a by (simp add: k)
  qed
qed

lemma with_language_Some: "\<forall>r\<in>set (with_language fetched). language r \<noteq> None"
  by (simp add: with_language_def)

lemma count_with_language:
  "length (filter (\<lambda>r. language r = Some l) (with_language fetched))
   = length (filter (\<lambda>r. language r = Some l) fetched)"
proof -
  have "filter (\<lambda>r. language r = Some l) (with_language fetched) = filter (\<lambda>r. language r = Some l) fetched"
    unfolding with_language_def filter_filter by (rule filter_cong) auto
  then show ?thesis by simp
qed

lemma langs_lookup:
  "map_of (langs_of (with_language fetched)) l
   = (let c = length (filter (\<lambda>r. language r = Some l) fetched) in if c = 0 then None else Some c)"
proof -
  let ?m = "langs_of (with_language fetched)"
  have c: "(case map_of ?m l of None \<Rightarrow> 0 | Some c \<Rightarrow> c) = length (filter (\<lambda>r. language r = Some l) fetched)"
    using tally_count [where rs = "with_language fetched" and acc = "[]" and l = l, OF with_language_Some]
    by (simp add: langs_of_def count_with_language)
  have p: "\<forall>k c. map_of ?m k = Some c \<longrightarrow> 0 < c"
    unfolding langs_of_def by (rule tally_positive [OF with_language_Some]) simp
  show ?thesis
  proof (cases "map_of ?m l")
    case None
    then show ?thesis using c by simp
  next
    case (Some n)
    then have "0 < n" using p by blast
    then show ?thesis using c Some by (simp add: Let_def)
  qed
qed

lemma langs_distinct: "distinct (map fst (langs_of rs))"
  unfolding langs_of_def by (rule tally_distinct) simp

lemma langs_keys:
  "map fst (langs_of (with_language fetched)) = first_seen (List.map_filter language fetched)"
  using tally_keys [where rs = "with_language fetched" and acc = "[]", OF with_language_Some]
  by (simp add: langs_of_def map_filter_def with_language_def comp_def)

text \<open>
  C9 (as the code has it). The handler discards the records whose language is \<open>null\<close>,
  and only those: the tally maps a name to the number of fetched records that carry it,
  and has no entry for a name that no record carries. A record whose language is the
  empty string is kept and tallied under the empty name.
\<close>

theorem tally_of_languages:
  "map_of (langs_of (with_language fetched)) l
     = (let c = length (filter (\<lambda>r. language r = Some l) fetched) in if c = 0 then None else Some c)
   \<and> distinct (map fst (langs_of (with_language fetched)))
   \<and> set (map fst (langs_of (with_language fetched))) = {l. \<exists>r\<in>set fetched. language r = Some l}"
proof -
  have "set (map fst (langs_of (with_language fetched))) = {l. \<exists>r\<in>set fetched. language r = Some l}"
  proof -
    have "set (map fst (langs_of (with_language fetched))) = dom (map_of (langs_of (with_language fetched)))"
      by (simp add: dom_map_of_conv_image_fst)
    also have "\<dots> = {l. length (filter (\<lambda>r. language r = Some l) fetched) \<noteq> 0}"
      by (auto simp: dom_def langs_lookup Let_def)
    also have "\<dots> = {l. \<exists>r\<in>set fetched. language r = Some l}"
      by (auto simp: filter_empty_conv)
    finally show ?thesis .
  qed
  then show ?thesis using langs_lookup [of fetched l] langs_distinct by blast
qed

theorem empty_language_counterexample:
  "with_language [mockRepo 1 (Some '''')] = [mockRepo 1 (Some '''')]
   \<and> langs_of (with_language [mockRepo 1 (Some '''')]) = [('''', 1)]"
  by (simp add: with_language_def mockRepo_def langs_of_def tally_step_def map_set_def map_get_def)

lemma mult_divide_cancel_rat: "c \<noteq> 0 \<Longrightarrow> a * c / c = (a::rat)"
  by simp

lemma of_nat_grid: "(of_nat n :: rat) = of_int (int n * 2 ^ 1074) / 2 ^ 1074"
proof -
  have c: "(2::rat) ^ 1074 \<noteq> 0" by (rule power_not_zero) simp
  have "(of_int (int n * 2 ^ 1074) :: rat) / 2 ^ 1074 = of_nat n * 2 ^ 1074 / 2 ^ 1074"
    by (simp only: of_int_mult of_int_of_nat_eq of_int_power of_int_numeral)
  also have "\<dots> = of_nat n" by (rule mult_divide_cancel_rat [OF c])
  finally show ?thesis by (rule sym)
qed

lemma round_double_of_nat_gt:
  "num_gt (round_double (of_nat n)) (Fin 0) \<longleftrightarrow> 0 < n"
proof -
  have "(0::rat) = of_int 0 / 2 ^ 1074" by simp
  from round_double_sign [OF this of_nat_grid [of n]] show ?thesis by simp
qed

lemma round_double_neg_of_nat_gt:
  "\<not> num_gt (round_double (- of_nat n)) (Fin 0)"
proof -
  have z: "(0::rat) = of_int 0 / 2 ^ 1074" by simp
  have "(- of_nat n :: rat) = of_int (- (int n * 2 ^ 1074)) / 2 ^ 1074"
    using of_nat_grid [of n] by (simp only: of_int_minus minus_divide_left)
  from round_double_sign [OF z this] show ?thesis by simp
qed

lemma parseInt10_empty: "parseInt10 '''' = NaN"
  by (simp add: parseInt10_def split_sign_def)

text \<open>
  C6 (as the code has it). The \<open>top\<close> parameter is read by \<open>parseInt\<close> with radix 10:
  after leading white space and an optional sign, the longest run of decimal digits is
  read, whatever follows it. When the run denotes a positive value, the display count is
  that value below \<open>2 ^ 53\<close> and the value rounded to binary64 from there on (infinity
  beyond the binary64 range). The count is 5 when the parameter is missing or empty,
  does not start with a digit after white space and sign, or denotes a value that is
  not positive.
\<close>

theorem count_of_top:
  "count_of top_value = (case top_value of
       None \<Rightarrow> Fin 5
     | Some t \<Rightarrow>
         (case split_sign (dropWhile is_space t) of (neg, r) \<Rightarrow>
            let ds = takeWhile is_digit r in
            if ds \<noteq> [] \<and> \<not> neg \<and> 0 < digits_val ds
            then (if digits_val ds < 2 ^ 53 then Fin (of_nat (digits_val ds))
                  else round_double (of_nat (digits_val ds)))
            else Fin 5))"
proof (cases top_value)
  case None
  then show ?thesis by (simp add: count_of_def)
next
  case (Some t)
  obtain neg r where s: "split_sign (dropWhile is_space t) = (neg, r)"
    by (cases "split_sign (dropWhile is_space t)")
  define ds where "ds = takeWhile is_digit r"
  have p: "parseInt10 t = (if ds = [] then NaN
      else round_double (if neg then - of_nat (digits_val ds) else of_nat (digits_val ds)))"
    by (simp add: parseInt10_def s ds_def Let_def)
  have e: "t = '''' \<Longrightarrow> ds = []"
    using s by (auto simp: ds_def split_sign_def)
  have "count_of (Some t) = (if ds \<noteq> [] \<and> \<not> neg \<and> 0 < digits_val ds
            then round_double (of_nat (digits_val ds)) else Fin 5)"
    using e by (auto simp: count_of_def p round_double_of_nat_gt round_double_neg_of_nat_gt)
  then show ?thesis
    using round_double_of_nat [of "digits_val ds"]
    by (simp add: Some s ds_def [symmetric] Let_def)
qed

theorem top_with_trailing_text_counterexample:
  "count_of (Some ''2abc'') = Fin 2 \<and> count_of (Some ''2abc'') \<noteq> Fin 5"
proof -
  have "count_of (Some ''2abc'') = Fin 2"
    by (simp add: count_of_def parseInt10_def split_sign_def is_space_def is_digit_def
        digits_val_def digit_val_def round_double_2)
  then show ?thesis by simp
qed

lemma length_insert_sorted: "length (insert_sorted cmp x ys) = Suc (length ys)"
  by (induction ys) simp_all

lemma length_array_sort: "length (array_sort cmp xs) = length xs"
  by (induction xs) (simp_all add: array_sort_def length_insert_sorted)

lemma slice0_of_nat: "slice0 xs (Fin (of_nat n)) = take n xs"
  by (simp add: slice0_def)

lemma map_zip_index:
  "map (\<lambda>(entry, index). f entry index) (zip xs [0..<length xs]) = map (\<lambda>i. f (xs ! i) i) [0..<length xs]"
  by (rule nth_equalityI) simp_all

lemma generateSvg_rows:
  "generateSvg percMap count
   = document (55 + length (topLangs percMap count) * 40 + 30)
       (concat (map (\<lambda>i. langItem (topLangs percMap count ! i) i) [0..<length (topLangs percMap count)]))"
  by (simp add: generateSvg_def Let_def map_zip_index)

lemma contains_iff: "contains s t \<longleftrightarrow> (\<exists>a b. s = a @ t @ b)"
proof (induction s)
  case Nil
  then show ?case by auto
next
  case (Cons c s)
  show ?case
  proof
    assume "contains (c # s) t"
    then consider "take (length t) (c # s) = t" | "contains s t" by auto
    then show "\<exists>a b. c # s = a @ t @ b"
    proof cases
      case 1
      then have "c # s = [] @ t @ drop (length t) (c # s)"
        by (metis append_Nil append_take_drop_id)
      then show ?thesis by blast
    next
      case 2
      then obtain a b where "s = a @ t @ b" using Cons.IH by blast
      then have "c # s = (c # a) @ t @ b" by simp
      then show ?thesis by blast
    qed
  next
    assume "\<exists>a b. c # s = a @ t @ b"
    then obtain a b where ab: "c # s = a @ t @ b" by blast
    show "contains (c # s) t"
    proof (cases a)
      case Nil
      then have "take (length t) (c # s) = t" using ab by simp
      then show ?thesis by simp
    next
      case (Cons c' a')
      then have "s = a' @ t @ b" using ab by simp
      then have "contains s t" using Cons.IH by blast
      then show ?thesis by simp
    qed
  qed
qed

lemma containsI: "s = a @ t @ b \<Longrightarrow> contains s t"
  using contains_iff by blast

lemma contains_refl: "contains s s"
  by (rule containsI [of s "[]" s "[]"]) simp

lemma contains_trans:
  assumes "contains s t" and "contains t u"
  shows "contains s u"
proof -
  obtain a b where "s = a @ t @ b" using assms(1) contains_iff by blast
  moreover obtain c d where "t = c @ u @ d" using assms(2) contains_iff by blast
  ultimately have "s = (a @ c) @ u @ (d @ b)" by simp
  then show ?thesis by (rule containsI)
qed

lemma contains_mono: "contains s t \<Longrightarrow> contains (a @ s @ b) t"
  by (rule contains_trans [of _ s]) (rule containsI [of _ a s b], rule refl)

lemma contains_concat: "x \<in> set xs \<Longrightarrow> contains (concat xs) x"
proof -
  assume "x \<in> set xs"
  then obtain ys zs where "xs = ys @ x # zs" by (meson split_list)
  then have "concat xs = concat ys @ x @ concat zs" by simp
  then show ?thesis by (rule containsI)
qed

lemma contains_set: "contains s t \<Longrightarrow> set t \<subseteq> set s"
  using contains_iff [of s t] by auto

lemma split_base: "v = [] @ v"
  by simp

lemma split_app: "u = x @ v \<Longrightarrow> a @ u = (a @ x) @ v"
  by simp

lemma split_cons: "u = x @ v \<Longrightarrow> c # u = (c # x) @ v"
  by simp

lemma document_split: "\<exists>head tail. \<forall>items. document height items = head @ items @ tail"
  unfolding document_def
  by (rule exI, rule exI, rule allI, (rule split_base | rule split_app)+)

lemma contains_document: "contains items t \<Longrightarrow> contains (document height items) t"
proof -
  assume a: "contains items t"
  obtain head tail where "\<forall>items. document height items = head @ items @ tail"
    using document_split by blast
  then have "document height items = head @ items @ tail" by blast
  then show ?thesis using contains_mono [OF a] by simp
qed

lemma row_name_cell: "contains (row_template index lang perc color) (name_cell lang)"
proof -
  have "\<exists>a b. row_template index lang perc color = a @ name_cell lang @ b"
    unfolding row_template_def name_cell_def
    apply (simp only: append.simps append_assoc)
    apply (rule exI, rule exI, (rule split_base | rule split_app | rule split_cons)+)
    done
  then show ?thesis using contains_iff by blast
qed


lemma row_share_cell: "contains (row_template index lang perc color) (share_cell perc)"
proof -
  have "\<exists>a b. row_template index lang perc color = a @ share_cell perc @ b"
    unfolding row_template_def share_cell_def
    apply (simp only: append.simps append_assoc)
    apply (rule exI, rule exI, (rule split_base | rule split_app | rule split_cons)+)
    done
  then show ?thesis using contains_iff by blast
qed

lemma row_bar_width: "contains (row_template index lang perc color) (bar_width perc)"
proof -
  have "\<exists>a b. row_template index lang perc color = a @ bar_width perc @ b"
    unfolding row_template_def bar_width_def
    apply (simp only: append.simps append_assoc)
    apply (rule exI, rule exI, (rule split_base | rule split_app | rule split_cons)+)
    done
  then show ?thesis using contains_iff by blast
qed

lemma row_bar_fill: "contains (row_template index lang perc color) (bar_fill color)"
proof -
  have "\<exists>a b. row_template index lang perc color = a @ bar_fill color @ b"
    unfolding row_template_def bar_fill_def
    apply (simp only: append.simps append_assoc)
    apply (rule exI, rule exI, (rule split_base | rule split_app | rule split_cons)+)
    done
  then show ?thesis using contains_iff by blast
qed

lemma kept_row_shown:
  assumes "i < length (topLangs percMap count)" and "topLangs percMap count ! i = (lang, perc)"
  shows "contains (generateSvg percMap count) (row_template i lang perc (stringToHexColor lang))"
    and "contains (generateSvg percMap count) (name_cell lang)"
    and "contains (generateSvg percMap count) (share_cell perc)"
    and "contains (generateSvg percMap count) (bar_width perc)"
    and "contains (generateSvg percMap count) (bar_fill (stringToHexColor lang))"
proof -
  let ?tl = "topLangs percMap count"
  let ?row = "row_template i lang perc (stringToHexColor lang)"
  have "langItem (?tl ! i) i \<in> set (map (\<lambda>i. langItem (?tl ! i) i) [0..<length ?tl])"
    using assms(1) by simp
  then have "contains (concat (map (\<lambda>i. langItem (?tl ! i) i) [0..<length ?tl])) (langItem (?tl ! i) i)"
    by (rule contains_concat)
  then have "contains (generateSvg percMap count) (langItem (?tl ! i) i)"
    unfolding generateSvg_rows by (rule contains_document)
  then show r: "contains (generateSvg percMap count) ?row"
    by (simp add: assms(2) langItem_def)
  show "contains (generateSvg percMap count) (name_cell lang)"
    using r row_name_cell by (rule contains_trans)
  show "contains (generateSvg percMap count) (share_cell perc)"
    using r row_share_cell by (rule contains_trans)
  show "contains (generateSvg percMap count) (bar_width perc)"
    using r row_bar_width by (rule contains_trans)
  show "contains (generateSvg percMap count) (bar_fill (stringToHexColor lang))"
    using r row_bar_fill by (rule contains_trans)
qed

text \<open>
  C7 (as the code has it). For a positive display count \<open>n\<close>, rendering keeps the first
  \<open>n\<close> entries of the ranked list (all of them when there are fewer). The document
  consists of the fixed frame and one row for each of the first \<open>min n (length ranked)\<close>
  entries, in ranking order, and has no row for any other entry; the row of a kept entry
  shows its name, its share followed by \<open>%\<close>, the width of its bar and its color.
  The name of a dropped entry can still occur in the document as text, inside a kept name.
\<close>

theorem render_truncates:
  assumes "0 < n"
  shows "topLangs percMap (Fin (of_nat n)) = take n (array_sort compare_perc percMap)
       \<and> generateSvg percMap (Fin (of_nat n))
           = document (55 + min n (length percMap) * 40 + 30)
               (concat (map (\<lambda>i. langItem (array_sort compare_perc percMap ! i) i)
                  [0..<min n (length percMap)]))
       \<and> (\<forall>i<min n (length percMap).
             contains (generateSvg percMap (Fin (of_nat n)))
               (row_template i (fst (array_sort compare_perc percMap ! i))
                  (snd (array_sort compare_perc percMap ! i))
                  (stringToHexColor (fst (array_sort compare_perc percMap ! i))))
           \<and> contains (generateSvg percMap (Fin (of_nat n)))
               (name_cell (fst (array_sort compare_perc percMap ! i)))
           \<and> contains (generateSvg percMap (Fin (of_nat n)))
               (share_cell (snd (array_sort compare_perc percMap ! i)))
           \<and> contains (generateSvg percMap (Fin (of_nat n)))
               (bar_width (snd (array_sort compare_perc percMap ! i)))
           \<and> contains (generateSvg percMap (Fin (of_nat n)))
               (bar_fill (stringToHexColor (fst (array_sort compare_perc percMap ! i)))))"
proof -
  let ?ranked = "array_sort compare_perc percMap"
  let ?k = "min n (length percMap)"
  have t: "topLangs percMap (Fin (of_nat n)) = take n ?ranked"
    by (simp add: topLangs_def slice0_of_nat)
  have l: "length (take n ?ranked) = ?k"
    by (simp add: length_array_sort min.commute)
  have m: "map (\<lambda>i. langItem (take n ?ranked ! i) i) [0..<?k]
        = map (\<lambda>i. langItem (?ranked ! i) i) [0..<?k]"
    by (rule map_cong) simp_all
  have d: "generateSvg percMap (Fin (of_nat n))
           = document (55 + ?k * 40 + 30) (concat (map (\<lambda>i. langItem (?ranked ! i) i) [0..<?k]))"
    unfolding generateSvg_rows t l m by (rule refl)
  have c: "contains (generateSvg percMap (Fin (of_nat n)))
               (row_template i (fst (?ranked ! i)) (snd (?ranked ! i)) (stringToHexColor (fst (?ranked ! i))))
           \<and> contains (generateSvg percMap (Fin (of_nat n))) (name_cell (fst (?ranked ! i)))
           \<and> contains (generateSvg percMap (Fin (of_nat n))) (share_cell (snd (?ranked ! i)))
           \<and> contains (generateSvg percMap (Fin (of_nat n))) (bar_width (snd (?ranked ! i)))
           \<and> contains (generateSvg percMap (Fin (of_nat n))) (bar_fill (stringToHexColor (fst (?ranked ! i))))"
    if i: "i < ?k" for i
  proof -
    have i1: "i < length (topLangs percMap (Fin (of_nat n)))" using i by (simp add: t length_array_sort)
    have i2: "topLangs percMap (Fin (of_nat n)) ! i = (fst (?ranked ! i), snd (?ranked ! i))"
      using i by (simp add: t)
    show ?thesis using kept_row_shown [OF i1 i2] by simp
  qed
  show ?thesis using t d c by blast
qed

lemma parseFloat_6000: "parseFloat ''60.00'' = Fin 60"
proof -
  have "parseFloat (''60'' @ CHR ''.'' # ''00'') = round_double (of_nat (digits_val ''60'') + of_nat (digits_val ''00'') / 10 ^ length ''00'')"
    by (rule parseFloat_decimal) (simp_all add: is_digit_def)
  moreover have "round_double 60 = Fin 60"
    using round_double_eqI [of 60 5 8444249301319680] by simp
  ultimately show ?thesis by (simp add: digits_val_def digit_val_def)
qed

lemma parseFloat_4000: "parseFloat ''40.00'' = Fin 40"
proof -
  have "parseFloat (''40'' @ CHR ''.'' # ''00'') = round_double (of_nat (digits_val ''40'') + of_nat (digits_val ''00'') / 10 ^ length ''00'')"
    by (rule parseFloat_decimal) (simp_all add: is_digit_def)
  moreover have "round_double 40 = Fin 40"
    using round_double_eqI [of 40 5 5629499534213120] by simp
  ultimately show ?thesis by (simp add: digits_val_def digit_val_def)
qed

lemma java_ranked:
  "array_sort compare_perc [(''JavaScript'', ''60.00''), (''Java'', ''40.00'')]
   = [(''JavaScript'', ''60.00''), (''Java'', ''40.00'')]"
proof -
  have "array_sort compare_perc [(''JavaScript'', ''60.00''), (''Java'', ''40.00'')]
        = sort_key (\<lambda>e. - perc_value (snd e)) [(''JavaScript'', ''60.00''), (''Java'', ''40.00'')]"
    by (rule array_sort_sort_key) (simp add: parseFloat_6000 parseFloat_4000)
  then show ?thesis by (simp add: perc_value_def parseFloat_6000 parseFloat_4000)
qed

theorem dropped_name_occurs_counterexample:
  "topLangs [(''JavaScript'', ''60.00''), (''Java'', ''40.00'')] (Fin 1) = [(''JavaScript'', ''60.00'')]
   \<and> contains (generateSvg [(''JavaScript'', ''60.00''), (''Java'', ''40.00'')] (Fin 1)) ''Java''"
proof -
  let ?pm = "[(''JavaScript'', ''60.00''), (''Java'', ''40.00'')]"
  have t: "topLangs ?pm (Fin 1) = [(''JavaScript'', ''60.00'')]"
    by (simp add: topLangs_def slice0_def java_ranked)
  have "contains (generateSvg ?pm (Fin 1)) (name_cell ''JavaScript'')"
    by (rule kept_row_shown(2) [of 0 _ _ _ "''60.00''"]) (simp_all add: t)
  moreover have "contains (name_cell ''JavaScript'') ''Java''"
  proof -
    have "\<exists>a b. name_cell ''JavaScript'' = a @ ''Java'' @ b"
      unfolding name_cell_def
      apply (simp only: append.simps)
      apply (rule exI, rule exI, (rule split_base | rule split_app | rule split_cons)+)
      done
    then show ?thesis using contains_iff by blast
  qed
  ultimately have "contains (generateSvg ?pm (Fin 1)) ''Java''" by (rule contains_trans)
  then show ?thesis using t by simp
qed

lemma hex_not_J: "is_hex_lower c \<Longrightarrow> c \<noteq> CHR ''J''"
  by (auto simp: is_hex_lower_def)

lemma color_not_J: "CHR ''J'' \<notin> set (stringToHexColor str)"
proof -
  have "list_all is_hex_lower (take 6 (sha1Hash str))"
    using sha1Hash_hex [of str] by (auto simp: list_all_iff dest: in_set_takeD)
  then show ?thesis using hex_not_J by (auto simp: stringToHexColor_def list_all_iff)
qed

lemma mock_top2:
  "topLangs [(''TypeScript'', ''33.33''), (''JavaScript'', ''16.67''), (''Python'', ''50.00'')] (Fin 2)
   = [(''Python'', ''50.00''), (''TypeScript'', ''33.33'')]"
  by (simp add: topLangs_def slice0_def mock_ranked)

lemma mock_svg2:
  "generateSvg [(''TypeScript'', ''33.33''), (''JavaScript'', ''16.67''), (''Python'', ''50.00'')] (Fin 2)
   = document 165 (langItem (''Python'', ''50.00'') 0 @ langItem (''TypeScript'', ''33.33'') 1)"
  by (simp add: generateSvg_def Let_def mock_top2 upt_rec_numeral)

lemma mock_no_J:
  "CHR ''J'' \<notin> set (generateSvg [(''TypeScript'', ''33.33''), (''JavaScript'', ''16.67''), (''Python'', ''50.00'')] (Fin 2))"
  unfolding mock_svg2
  by (simp add: document_def langItem_def row_template_def nat_to_string.simps digit_char_def color_not_J)

lemma mock_no_javascript:
  "\<not> contains (generateSvg [(''TypeScript'', ''33.33''), (''JavaScript'', ''16.67''), (''Python'', ''50.00'')] (Fin 2)) ''JavaScript''"
  using mock_no_J contains_set by fastforce

theorem render_truncates_witness:
  "0 < (2::nat)
   \<and> topLangs [(''TypeScript'', ''33.33''), (''JavaScript'', ''16.67''), (''Python'', ''50.00'')] (Fin 2)
       = [(''Python'', ''50.00''), (''TypeScript'', ''33.33'')]
   \<and> contains (generateSvg [(''TypeScript'', ''33.33''), (''JavaScript'', ''16.67''), (''Python'', ''50.00'')] (Fin 2))
        (name_cell ''Python'')
   \<and> contains (generateSvg [(''TypeScript'', ''33.33''), (''JavaScript'', ''16.67''), (''Python'', ''50.00'')] (Fin 2))
        (share_cell ''50.00'')
   \<and> contains (generateSvg [(''TypeScript'', ''33.33''), (''JavaScript'', ''16.67''), (''Python'', ''50.00'')] (Fin 2))
        (name_cell ''TypeScript'')
   \<and> contains (generateSvg [(''TypeScript'', ''33.33''), (''JavaScript'', ''16.67''), (''Python'', ''50.00'')] (Fin 2))
        (share_cell ''33.33'')
   \<and> \<not> contains (generateSvg [(''TypeScript'', ''33.33''), (''JavaScript'', ''16.67''), (''Python'', ''50.00'')] (Fin 2))
        ''JavaScript''"
proof -
  let ?pm = "[(''TypeScript'', ''33.33''), (''JavaScript'', ''16.67''), (''Python'', ''50.00'')]"
  note r = render_truncates [of 2 ?pm, simplified mock_ranked]
  have t: "topLangs ?pm (Fin 2) = [(''Python'', ''50.00''), (''TypeScript'', ''33.33'')]"
    using r by simp
  have c0: "contains (generateSvg ?pm (Fin 2)) (name_cell ''Python'')
          \<and> contains (generateSvg ?pm (Fin 2)) (share_cell ''50.00'')"
    using r by (auto dest: spec [of _ 0])
  have c1: "contains (generateSvg ?pm (Fin 2)) (name_cell ''TypeScript'')
          \<and> contains (generateSvg ?pm (Fin 2)) (share_cell ''33.33'')"
    using r by (auto dest: spec [of _ 1])
  show ?thesis using t c0 c1 mock_no_javascript by simp
qed

lemma row_has_marker: "contains (row_template index lang perc color) row_marker"
proof -
  have "\<exists>a b. row_template index lang perc color = a @ row_marker @ b"
    unfolding row_template_def row_marker_def
    apply (simp only: append.simps append_assoc)
    apply (rule exI, rule exI, (rule split_base | rule split_app | rule split_cons)+)
    done
  then show ?thesis using contains_iff by blast
qed










section \<open>The shares of a tally\<close>

lemma update_new_key: "k \<notin> set (map fst al) \<Longrightarrow> AList.update k v al = al @ [(k, v)]"
  by (induction al) auto

lemma percMap_forEach_eq:
  assumes "distinct (map fst acc @ map fst langs)"
  shows "percMap_forEach T langs acc =
     (if \<forall>e\<in>set langs. perc_of (snd e) T \<noteq> None
      then Some (acc @ map (\<lambda>e. (fst e, the (perc_of (snd e) T))) langs) else None)"
  using assms
proof (induction langs arbitrary: acc)
  case Nil
  then show ?case by simp
next
  case (Cons e langs)
  obtain k v where e: "e = (k, v)" by (cases e)
  show ?case
  proof (cases "perc_of v T")
    case None
    then show ?thesis by (auto simp: e)
  next
    case (Some p)
    have k: "k \<notin> set (map fst acc)" using Cons.prems by (auto simp: e)
    have s: "map_set acc k p = acc @ [(k, p)]" using k by (simp add: map_set_def update_new_key)
    have d: "distinct (map fst (acc @ [(k, p)]) @ map fst langs)" using Cons.prems by (auto simp: e)
    show ?thesis using Cons.IH [OF d] by (simp add: e Some s)
  qed
qed

lemma percMap_of_eq:
  assumes "distinct (map fst langs)"
  shows "percMap_of langs =
     (if \<forall>e\<in>set langs. perc_of (snd e) (total_of langs) \<noteq> None
      then Some (map (\<lambda>e. (fst e, the (perc_of (snd e) (total_of langs)))) langs) else None)"
  using percMap_forEach_eq [of "[]" langs "total_of langs"] assms by (simp add: percMap_of_def)

lemma foldl_add: "foldl (\<lambda>acc count. acc + count) a xs = a + sum_list xs" for a :: nat
  by (induction xs arbitrary: a) simp_all

lemma total_of_sum: "total_of langs = sum_list (map snd langs)"
  by (simp add: total_of_def foldl_add)

lemma sum_update:
  "sum_list (map snd (AList.update k v al)) + (case map_of al k of None \<Rightarrow> 0 | Some c \<Rightarrow> c)
   = sum_list (map snd al) + v" for v :: nat
  by (induction al) auto

lemma tally_total:
  assumes "\<forall>r\<in>set rs. language r \<noteq> None"
  shows "sum_list (map snd (foldl tally_step acc rs)) = sum_list (map snd acc) + length rs"
  using assms
proof (induction rs arbitrary: acc)
  case Nil
  then show ?case by simp
next
  case (Cons r rs)
  obtain k where k: "language r = Some k" using Cons.prems by auto
  have "sum_list (map snd (tally_step acc r)) = sum_list (map snd acc) + 1"
    using sum_update [of k "(case map_of acc k of None \<Rightarrow> 0 | Some c \<Rightarrow> c) + 1" acc]
    by (simp add: tally_step_Some [OF k])
  then show ?case using Cons.prems Cons.IH [of "tally_step acc r"] by simp
qed

lemma total_of_langs: "total_of (langs_of (with_language fetched)) = length (with_language fetched)"
  using tally_total [where rs = "with_language fetched" and acc = "[]", OF with_language_Some]
  by (simp add: total_of_sum langs_of_def)

lemma member_le_sum_list: "x \<in> set xs \<Longrightarrow> x \<le> sum_list xs" for x :: nat
  by (induction xs) auto

lemma langs_entry_bounds:
  assumes "e \<in> set (langs_of (with_language fetched))"
  shows "1 \<le> snd e" and "snd e \<le> total_of (langs_of (with_language fetched))"
proof -
  let ?m = "langs_of (with_language fetched)"
  have "map_of ?m (fst e) = Some (snd e)"
    using assms map_of_eq_Some_iff [OF langs_distinct, of "with_language fetched" "fst e" "snd e"] by simp
  then have "snd e = length (filter (\<lambda>r. language r = Some (fst e)) fetched)
      \<and> filter (\<lambda>r. language r = Some (fst e)) fetched \<noteq> []"
    by (auto simp: langs_lookup Let_def split: if_splits)
  then have "0 < snd e" using length_greater_0_conv [of "filter (\<lambda>r. language r = Some (fst e)) fetched"]
    by (simp del: length_greater_0_conv)
  then show "1 \<le> snd e" by simp
  have "snd e \<in> set (map snd ?m)" using assms by simp
  then show "snd e \<le> total_of ?m" unfolding total_of_sum by (rule member_le_sum_list)
qed

lemma langs_key_set:
  "set (map fst (langs_of (with_language fetched))) = {l. \<exists>r\<in>set fetched. language r = Some l}"
proof -
  have "set (map fst (langs_of (with_language fetched))) = dom (map_of (langs_of (with_language fetched)))"
    by (simp add: dom_map_of_conv_image_fst)
  also have "\<dots> = {l. length (filter (\<lambda>r. language r = Some l) fetched) \<noteq> 0}"
    by (auto simp: dom_def langs_lookup Let_def)
  also have "\<dots> = {l. \<exists>r\<in>set fetched. language r = Some l}"
    by (auto simp: filter_empty_conv)
  finally show ?thesis .
qed

lemma percMap_defined:
  "\<exists>percMap. percMap_of (langs_of (with_language fetched)) = Some percMap
     \<and> percMap = map (\<lambda>e. (fst e, the (perc_of (snd e) (length (with_language fetched)))))
                   (langs_of (with_language fetched))
     \<and> (\<forall>e\<in>set percMap. is_finite (parseFloat (snd e)))"
proof -
  let ?m = "langs_of (with_language fetched)"
  let ?T = "length (with_language fetched)"
  have f: "\<exists>s v. perc_of (snd e) ?T = Some s \<and> parseFloat s = Fin v" if "e \<in> set ?m" for e
    using perc_of_finite [of "snd e" ?T] langs_entry_bounds [OF that] by (auto simp: total_of_langs)
  then have a: "\<forall>e\<in>set ?m. perc_of (snd e) (total_of ?m) \<noteq> None"
    by (auto simp: total_of_langs)
  have p: "percMap_of ?m = Some (map (\<lambda>e. (fst e, the (perc_of (snd e) ?T))) ?m)"
    using percMap_of_eq [OF langs_distinct, of "with_language fetched"] a by (simp add: total_of_langs)
  have "is_finite (parseFloat (the (perc_of (snd e) ?T)))" if "e \<in> set ?m" for e
    using f [OF that] by auto
  then show ?thesis using p by auto
qed

section \<open>The ranking\<close>

lemma percMap_keys:
  assumes "percMap_of (langs_of (with_language fetched)) = Some percMap"
  shows "map fst percMap = first_seen (List.map_filter language fetched)"
proof -
  obtain pm where "percMap_of (langs_of (with_language fetched)) = Some pm"
    and "pm = map (\<lambda>e. (fst e, the (perc_of (snd e) (length (with_language fetched)))))
                   (langs_of (with_language fetched))"
    using percMap_defined [of fetched] by blast
  then have "map fst percMap = map fst (langs_of (with_language fetched))"
    using assms by (simp add: comp_def)
  then show ?thesis by (simp add: langs_keys)
qed

lemma sorted_desc_sort_key:
  "sorted_wrt (\<lambda>x y. f y \<le> f x) (sort_key (\<lambda>e. - f e) xs)" for f :: "'a \<Rightarrow> rat"
proof -
  have "sorted (map (\<lambda>e. - f e) (sort_key (\<lambda>e. - f e) xs))" by (rule sorted_sort_key)
  then show ?thesis by (simp add: sorted_map)
qed

lemma perc_of_1_2: "perc_of (Suc 0) 2 = Some ''50.00''"
proof -
  have q: "round_double (1 / 2) = Fin (1 / 2)"
    using round_double_eqI [of "1 / 2" "- 1" 4503599627370496] by simp
  have p: "round_double (1 / 2 * 100) = Fin 50"
    using round_double_eqI [of "1 / 2 * 100" 5 7036874417766400] by simp
  have s: "nat_to_string 10 5000 = ''5000''" by (simp add: nat_to_string.simps digit_char_def)
  have "toFixed 2 (Fin 50) = Some ''50.00''"
    using toFixed_2_eval [of 50 5000 "''5000''"] s by simp
  then show ?thesis using q p by (simp add: perc_of_def)
qed


lemma filter_all_of_length:
  assumes "filter P xs = ys" and "length xs = length ys"
  shows "xs = ys"
proof -
  have "length (filter (\<lambda>x. \<not> P x) xs) = 0"
    using sum_length_filter_compl [of P xs] assms by simp
  then have "\<forall>x\<in>set xs. P x" by (simp add: filter_empty_conv)
  then show ?thesis using assms(1) by simp
qed

lemma tie_percMap:
  "percMap_of (langs_of (with_language [mockRepo 1 (Some ''A''), mockRepo 2 (Some ''B'')]))
   = Some [(''A'', ''50.00''), (''B'', ''50.00'')]"
proof -
  have "langs_of (with_language [mockRepo 1 (Some ''A''), mockRepo 2 (Some ''B'')]) = [(''A'', Suc 0), (''B'', Suc 0)]"
    by (simp add: langs_of_def tally_step_def with_language_def mockRepo_def map_set_def map_get_def)
  moreover have "perc_of (Suc 0) (Suc (Suc 0)) = Some ''50.00''"
    using perc_of_1_2 by (simp add: numeral_2_eq_2)
  ultimately show ?thesis
    by (simp add: percMap_of_def total_of_def map_set_def)
qed

text \<open>
  C3. The ranked list is the map of shares, whose keys stand in the order in which the
  languages were first seen, sorted by the numeric value of the share (what parseFloat reads
  from the text, not the text): in the ranked list no entry stands before one of greater
  value, and the entries of any one value stand in the order they have in the map, that is
  in first-seen order. The shares always exist, so the ranking is defined for every input.
\<close>

theorem ranking_sorted_stable:
  "\<exists>percMap. percMap_of (langs_of (with_language fetched)) = Some percMap
     \<and> map fst percMap = first_seen (List.map_filter language fetched)
     \<and> (\<forall>count. topLangs percMap count = slice0 (array_sort compare_perc percMap) count)
     \<and> sorted_wrt (\<lambda>x y. perc_value (snd y) \<le> perc_value (snd x)) (array_sort compare_perc percMap)
     \<and> (\<forall>v. filter (\<lambda>e. perc_value (snd e) = v) (array_sort compare_perc percMap)
            = filter (\<lambda>e. perc_value (snd e) = v) percMap)"
proof -
  obtain pm where pm: "percMap_of (langs_of (with_language fetched)) = Some pm"
    and fin: "\<forall>e\<in>set pm. is_finite (parseFloat (snd e))"
    using percMap_defined [of fetched] by blast
  have s: "array_sort compare_perc pm = sort_key (\<lambda>e. - perc_value (snd e)) pm"
    using fin by (rule array_sort_sort_key)
  have 1: "sorted_wrt (\<lambda>x y. perc_value (snd y) \<le> perc_value (snd x)) (array_sort compare_perc pm)"
    unfolding s by (rule sorted_desc_sort_key)
  have 2: "filter (\<lambda>e. perc_value (snd e) = v) (array_sort compare_perc pm)
         = filter (\<lambda>e. perc_value (snd e) = v) pm" for v
    using sort_key_stable [of "\<lambda>e. - perc_value (snd e)" "- v" pm] unfolding s by simp
  have 3: "topLangs pm count = slice0 (array_sort compare_perc pm) count" for count
    by (simp add: topLangs_def)
  show ?thesis using pm percMap_keys [OF pm] 1 2 3 by blast
qed

theorem ranking_sorted_stable_witness:
  "percMap_of (langs_of (with_language [mockRepo 1 (Some ''A''), mockRepo 2 (Some ''B'')]))
     = Some [(''A'', ''50.00''), (''B'', ''50.00'')]
   \<and> array_sort compare_perc [(''A'', ''50.00''), (''B'', ''50.00'')] = [(''A'', ''50.00''), (''B'', ''50.00'')]"
proof -
  obtain pm where pm: "percMap_of (langs_of (with_language [mockRepo 1 (Some ''A''), mockRepo 2 (Some ''B'')])) = Some pm"
    and st: "\<forall>v. filter (\<lambda>e. perc_value (snd e) = v) (array_sort compare_perc pm)
            = filter (\<lambda>e. perc_value (snd e) = v) pm"
    using ranking_sorted_stable [of "[mockRepo 1 (Some ''A''), mockRepo 2 (Some ''B'')]"] by blast
  have e: "pm = [(''A'', ''50.00''), (''B'', ''50.00'')]" using pm by (simp add: tie_percMap)
  have "filter (\<lambda>e. perc_value (snd e) = 50) (array_sort compare_perc pm) = pm"
    using st by (simp add: e perc_value_def parseFloat_5000)
  then have "array_sort compare_perc pm = pm"
    by (rule filter_all_of_length) (rule length_array_sort)
  then show ?thesis using e tie_percMap by simp
qed

section \<open>The sum of the shares\<close>

lemma sum_list_abs_diff:
  fixes f g :: "'a \<Rightarrow> rat"
  assumes "\<forall>x\<in>set xs. \<bar>f x - g x\<bar> \<le> c"
  shows "\<bar>(\<Sum>x\<leftarrow>xs. f x) - (\<Sum>x\<leftarrow>xs. g x)\<bar> \<le> of_nat (length xs) * c"
  using assms
proof (induction xs)
  case Nil
  then show ?case by simp
next
  case (Cons x xs)
  have a: "\<bar>f x - g x\<bar> \<le> c" using Cons.prems by simp
  have b: "\<bar>(\<Sum>x\<leftarrow>xs. f x) - (\<Sum>x\<leftarrow>xs. g x)\<bar> \<le> of_nat (length xs) * c"
    using Cons by simp
  show ?case using a b by (simp add: algebra_simps)
qed

lemma sum_list_scaled:
  "(\<Sum>e\<leftarrow>xs. 100 * of_nat (snd e) / of_nat T) = 100 * of_nat (sum_list (map snd xs)) / (of_nat T :: rat)"
  by (induction xs) (simp_all add: add_divide_distrib distrib_left)

lemma shares_exact_sum:
  assumes "with_language fetched \<noteq> []"
  shows "(\<Sum>e\<leftarrow>langs_of (with_language fetched).
            100 * of_nat (snd e) / of_nat (length (with_language fetched))) = (100 :: rat)"
proof -
  have "sum_list (map snd (langs_of (with_language fetched))) = length (with_language fetched)"
    using total_of_langs [of fetched] by (simp add: total_of_sum)
  then show ?thesis using assms by (simp add: sum_list_scaled)
qed

text \<open>
  C2. An array of the language has fewer than 2^32 elements. For every such array of records
  with at least one record that has a language, every language gets a share, one per distinct
  language, each share reads back as a finite number, and these numbers sum to 100 within
  0.01 times the number of distinct languages.
\<close>

theorem shares_sum_to_100:
  assumes "with_language fetched \<noteq> []" and "length fetched < 2 ^ 32"
  shows "\<exists>percMap. percMap_of (langs_of (with_language fetched)) = Some percMap
     \<and> length percMap = card {l. \<exists>r\<in>set fetched. language r = Some l}
     \<and> (\<forall>e\<in>set percMap. is_finite (parseFloat (snd e)))
     \<and> \<bar>(\<Sum>e\<leftarrow>percMap. perc_value (snd e)) - 100\<bar> \<le> of_nat (length percMap) / 100"
proof -
  let ?m = "langs_of (with_language fetched)"
  let ?T = "length (with_language fetched)"
  let ?p = "\<lambda>e. (fst e, the (perc_of (snd e) ?T))"
  obtain pm where pm: "percMap_of ?m = Some pm" and eq: "pm = map ?p ?m"
    and fin: "\<forall>e\<in>set pm. is_finite (parseFloat (snd e))"
    using percMap_defined [of fetched] by blast
  have "?T \<le> length fetched" unfolding with_language_def by (rule length_filter_le)
  then have T: "?T < 2 ^ 32" using assms(2) by (rule le_less_trans)
  have acc: "\<bar>perc_value (the (perc_of (snd e) ?T)) - 100 * of_nat (snd e) / of_nat ?T\<bar> \<le> 1 / 100"
    if m: "e \<in> set ?m" for e
  proof -
    obtain s v where "perc_of (snd e) ?T = Some s" and "parseFloat s = Fin v"
      and "\<bar>v - 100 * of_nat (snd e) / of_nat ?T\<bar> \<le> 1 / 100"
      using perc_of_accurate [of "snd e" ?T] langs_entry_bounds [OF m] T
      by (auto simp: total_of_langs)
    then show ?thesis by (simp add: perc_value_def)
  qed
  have "\<bar>(\<Sum>e\<leftarrow>?m. perc_value (the (perc_of (snd e) ?T))) - (\<Sum>e\<leftarrow>?m. 100 * of_nat (snd e) / of_nat ?T)\<bar>
        \<le> of_nat (length ?m) * (1 / 100)"
    using acc by (intro sum_list_abs_diff) blast
  then have s: "\<bar>(\<Sum>e\<leftarrow>pm. perc_value (snd e)) - 100\<bar> \<le> of_nat (length pm) / 100"
    using shares_exact_sum [OF assms(1)] by (simp add: eq comp_def)
  have "length pm = length (map fst ?m)" by (simp add: eq)
  also have "\<dots> = card (set (map fst ?m))"
    using distinct_card [OF langs_distinct, of "with_language fetched"] by simp
  finally have l: "length pm = card {l. \<exists>r\<in>set fetched. language r = Some l}"
    by (simp only: langs_key_set)
  show ?thesis using pm l fin s by blast
qed

theorem shares_sum_to_100_witness:
  "with_language mockRepos \<noteq> [] \<and> length mockRepos < 2 ^ 32
   \<and> percMap_of (langs_of (with_language mockRepos))
       = Some [(''TypeScript'', ''33.33''), (''JavaScript'', ''16.67''), (''Python'', ''50.00'')]
   \<and> \<bar>perc_value ''33.33'' + perc_value ''16.67'' + perc_value ''50.00'' - 100\<bar> \<le> 3 / 100"
proof -
  have a: "with_language mockRepos \<noteq> []" and b: "length mockRepos < 2 ^ 32"
    by (simp_all add: with_language_def mockRepos_def mockRepo_def)
  have c: "percMap_of (langs_of (with_language mockRepos))
       = Some [(''TypeScript'', ''33.33''), (''JavaScript'', ''16.67''), (''Python'', ''50.00'')]"
    unfolding mock_langs by (rule mock_percMap)
  show ?thesis using shares_sum_to_100 [OF a b] a b c by (simp add: add.assoc)
qed

end
